theory Spec2Isabelle
  imports Complex_Main "HOL-Library.Multiset" "HOL-Library.AList"
begin

section \<open>Data model of \<^verbatim>\<open>src/index.ts\<close>\<close>

text \<open>
  A shallow embedding of the batch file-operation tool of the MCP batch server: the zod
  schemas, \<^verbatim>\<open>groupOperationsByType\<close>, \<^verbatim>\<open>executeFileOperation\<close>,
  \<^verbatim>\<open>handleBatchFileOperations\<close> and the tool-call handler. Line numbers are those of
  \<^verbatim>\<open>src/index.ts\<close>.
\<close>

text \<open>
  \<^verbatim>\<open>FileOperationSchema\<close> (lines 26-32): the \<^verbatim>\<open>type\<close> enum, a path, an optional content, an
  optional destination and an encoding that the schema defaults to \<^verbatim>\<open>utf8\<close>.
\<close>

datatype op_type = Create | Read | Update | Delete | Copy | Move

datatype encoding = Utf8 | Base64

record FileOperation =
  type :: op_type
  path :: string
  content :: "string option"
  destination :: "string option"
  encoding :: encoding

text \<open>
  \<^verbatim>\<open>BatchOptionsSchema\<close> (lines 34-40). The three numeric options are \<^verbatim>\<open>z.number()\<close>
  with bounds and no \<^verbatim>\<open>.int()\<close>: any JavaScript number within the bounds is accepted, so
  the props are rationals (every finite double is one, and the code only compares them).
\<close>

record BatchOptions =
  maxConcurrent :: rat
  timeoutMs :: rat
  stopOnError :: bool
  retryAttempts :: rat
  groupByType :: bool

record BatchRequest =
  operations :: "FileOperation list"
  options :: "BatchOptions option"

text \<open>
  Values of TypeScript type \<^verbatim>\<open>any\<close>: the tool arguments, the executor's return values and
  the entries of the \<^verbatim>\<open>results\<close> and \<^verbatim>\<open>errors\<close> arrays. An object is the list of its
  own properties in insertion order.
\<close>

datatype json =
  JNull | JBool bool | JNum rat | JStr string | JArr "json list" | JObj "(string \<times> json) list"

definition obj_get :: "(string \<times> json) list \<Rightarrow> string \<Rightarrow> json option" where
  "obj_get props k = map_of props k"

text \<open>
  What is thrown or rejected: an \<^verbatim>\<open>Error\<close> with its message, or \<^verbatim>\<open>null\<close> (the initial
  value of \<^verbatim>\<open>lastError\<close> in \<^verbatim>\<open>executeFileOperation\<close>). Both handlers read a caught value
  with \<^verbatim>\<open>error instanceof Error ? error.message : 'Unknown error'\<close>.
\<close>

datatype thrown = Error string | Null

definition error_message :: "thrown \<Rightarrow> string" where
  "error_message e = (case e of Error m \<Rightarrow> m | Null \<Rightarrow> ''Unknown error'')"

section \<open>The request validator\<close>

text \<open>
  The zod schemas, read off their declarations. A property that is absent from the input
  object is \<open>None\<close> for \<^const>\<open>obj_get\<close>; \<^verbatim>\<open>.optional()\<close> accepts it, \<^verbatim>\<open>.default(d)\<close>
  replaces it by \<open>d\<close>. A present property of the wrong type, an unknown enum member or a
  number out of range makes the parse fail (\<open>None\<close>: zod throws a \<^verbatim>\<open>ZodError\<close>). Unknown
  properties are dropped.
\<close>

definition z_type :: "json option \<Rightarrow> op_type option" where
  "z_type v = (case v of
      Some (JStr s) \<Rightarrow>
        (if s = ''create'' then Some Create else if s = ''read'' then Some Read
         else if s = ''update'' then Some Update else if s = ''delete'' then Some Delete
         else if s = ''copy'' then Some Copy else if s = ''move'' then Some Move else None)
    | _ \<Rightarrow> None)"

definition z_string :: "json option \<Rightarrow> string option" where
  "z_string v = (case v of Some (JStr s) \<Rightarrow> Some s | _ \<Rightarrow> None)"

definition z_string_optional :: "json option \<Rightarrow> string option option" where
  "z_string_optional v =
     (case v of None \<Rightarrow> Some None | Some (JStr s) \<Rightarrow> Some (Some s) | Some _ \<Rightarrow> None)"

definition z_encoding :: "json option \<Rightarrow> encoding option" where
  "z_encoding v = (case v of
      None \<Rightarrow> Some Utf8
    | Some (JStr s) \<Rightarrow>
        (if s = ''utf8'' then Some Utf8 else if s = ''base64'' then Some Base64 else None)
    | Some _ \<Rightarrow> None)"

definition z_number :: "(rat \<Rightarrow> bool) \<Rightarrow> rat \<Rightarrow> json option \<Rightarrow> rat option" where
  "z_number in_range dflt v = (case v of
      None \<Rightarrow> Some dflt
    | Some (JNum r) \<Rightarrow> (if in_range r then Some r else None)
    | Some _ \<Rightarrow> None)"

definition z_boolean :: "bool \<Rightarrow> json option \<Rightarrow> bool option" where
  "z_boolean dflt v = (case v of None \<Rightarrow> Some dflt | Some (JBool b) \<Rightarrow> Some b | Some _ \<Rightarrow> None)"

definition parse_FileOperation :: "json \<Rightarrow> FileOperation option" where
  "parse_FileOperation j = (case j of
      JObj props \<Rightarrow>
        (case (z_type (obj_get props ''type''), z_string (obj_get props ''path''),
               z_string_optional (obj_get props ''content''),
               z_string_optional (obj_get props ''destination''),
               z_encoding (obj_get props ''encoding'')) of
           (Some t, Some p, Some c, Some d, Some e) \<Rightarrow>
             Some \<lparr>type = t, path = p, content = c, destination = d, encoding = e\<rparr>
         | _ \<Rightarrow> None)
    | _ \<Rightarrow> None)"

definition parse_BatchOptions :: "json \<Rightarrow> BatchOptions option" where
  "parse_BatchOptions j = (case j of
      JObj props \<Rightarrow>
        (case (z_number (\<lambda>r. 1 \<le> r \<and> r \<le> 100) 10 (obj_get props ''maxConcurrent''),
               z_number (\<lambda>r. 1000 \<le> r) 30000 (obj_get props ''timeoutMs''),
               z_boolean False (obj_get props ''stopOnError''),
               z_number (\<lambda>r. 0 \<le> r \<and> r \<le> 3) 1 (obj_get props ''retryAttempts''),
               z_boolean True (obj_get props ''groupByType'')) of
           (Some m, Some t, Some s, Some r, Some g) \<Rightarrow>
             Some \<lparr>maxConcurrent = m, timeoutMs = t, stopOnError = s, retryAttempts = r,
                   groupByType = g\<rparr>
         | _ \<Rightarrow> None)
    | _ \<Rightarrow> None)"

text \<open>\<^verbatim>\<open>z.array(FileOperationSchema)\<close>: every element must parse.\<close>

fun parse_operations :: "json list \<Rightarrow> FileOperation list option" where
  "parse_operations [] = Some []"
| "parse_operations (j # js) =
     (case parse_FileOperation j of
        None \<Rightarrow> None
      | Some op \<Rightarrow> (case parse_operations js of None \<Rightarrow> None | Some ops \<Rightarrow> Some (op # ops)))"

definition parse_BatchRequest :: "json \<Rightarrow> BatchRequest option" where
  "parse_BatchRequest j = (case j of
      JObj props \<Rightarrow>
        (case obj_get props ''operations'' of
           Some (JArr js) \<Rightarrow>
             (case parse_operations js of
                None \<Rightarrow> None
              | Some ops \<Rightarrow>
                 (case obj_get props ''options'' of
                    None \<Rightarrow> Some \<lparr>operations = ops, options = None\<rparr>
                  | Some oj \<Rightarrow>
                     (case parse_BatchOptions oj of
                        None \<Rightarrow> None
                      | Some os \<Rightarrow> Some \<lparr>operations = ops, options = Some os\<rparr>)))
         | _ \<Rightarrow> None)
    | _ \<Rightarrow> None)"

text \<open>
  Line 200: \<^verbatim>\<open>{ ...BatchOptionsSchema.parse({}), ...options }\<close>. The parse of the empty object
  yields every default. A parsed \<^verbatim>\<open>options\<close> carries all five properties (each has a
  default), so spreading it over the defaults gives \<^verbatim>\<open>options\<close> itself; when the request has
  no \<^verbatim>\<open>options\<close>, line 199 substitutes \<^verbatim>\<open>{}\<close> and the defaults stand.
\<close>

definition resolve_options :: "BatchRequest \<Rightarrow> BatchOptions option" where
  "resolve_options request =
     (case parse_BatchOptions (JObj []) of
        None \<Rightarrow> None
      | Some defaults \<Rightarrow> (case options request of None \<Rightarrow> Some defaults | Some os \<Rightarrow> Some os))"

section \<open>The grouping policy\<close>

text \<open>
  \<^verbatim>\<open>groupOperationsByType\<close> (lines 266-277) fills a JavaScript \<^verbatim>\<open>Map\<close>, which iterates in
  the order in which its keys were first set. The map is an association list here:
  \<^const>\<open>AList.update\<close> overwrites the value of a key that is present where it stands and
  appends a key that is new, as \<^verbatim>\<open>Map.prototype.set\<close> does.
\<close>

type_synonym grouping = "(op_type \<times> FileOperation list) list"

definition map_has :: "grouping \<Rightarrow> op_type \<Rightarrow> bool" where
  "map_has groups k = (map_of groups k \<noteq> None)"

definition map_get :: "grouping \<Rightarrow> op_type \<Rightarrow> FileOperation list option" where
  "map_get groups k = map_of groups k"

definition map_set :: "grouping \<Rightarrow> op_type \<Rightarrow> FileOperation list \<Rightarrow> grouping" where
  "map_set groups k v = AList.update k v groups"

definition map_values :: "grouping \<Rightarrow> FileOperation list list" where
  "map_values groups = map snd groups"

text \<open>
  One pass of the \<^verbatim>\<open>for (const op of operations)\<close> loop: set an empty array for a type
  that is not a key yet, then push the operation onto the array stored under its type.
  The \<^verbatim>\<open>!\<close> of \<^verbatim>\<open>groups.get(op.type)!\<close> is justified by the \<^verbatim>\<open>set\<close> just before; the
  \<open>None\<close> branch is unreachable and leaves the map as it is.
\<close>

definition group_push :: "grouping \<Rightarrow> FileOperation \<Rightarrow> grouping" where
  "group_push groups op =
     (let groups1 = (if \<not> map_has groups (type op) then map_set groups (type op) [] else groups)
      in case map_get groups1 (type op) of
           Some arr \<Rightarrow> map_set groups1 (type op) (arr @ [op])
         | None \<Rightarrow> groups1)"

fun group_loop :: "grouping \<Rightarrow> FileOperation list \<Rightarrow> grouping" where
  "group_loop groups [] = groups"
| "group_loop groups (op # ops) = group_loop (group_push groups op) ops"

definition groupOperationsByType :: "FileOperation list \<Rightarrow> FileOperation list list" where
  "groupOperationsByType ops = map_values (group_loop [] ops)"

text \<open>
  Lines 205-207 of \<^verbatim>\<open>handleBatchFileOperations\<close>: the groups the coordinator walks through.
\<close>

definition grouped_of :: "bool \<Rightarrow> FileOperation list \<Rightarrow> FileOperation list list" where
  "grouped_of by_type ops = (if by_type then groupOperationsByType ops else [ops])"

text \<open>
  The words of the specification, for comparison: the distinct types of the input in the
  order of their first occurrence, and for each of them the operations of that type in
  input order.
\<close>

fun first_seen :: "'a list \<Rightarrow> 'a list" where
  "first_seen [] = []"
| "first_seen (x # xs) = x # filter (\<lambda>y. y \<noteq> x) (first_seen xs)"

definition of_type :: "op_type \<Rightarrow> FileOperation list \<Rightarrow> FileOperation list" where
  "of_type t ops = filter (\<lambda>op. type op = t) ops"

definition groups_spec :: "FileOperation list \<Rightarrow> FileOperation list list" where
  "groups_spec ops = map (\<lambda>t. of_type t ops) (first_seen (map type ops))"

section \<open>The platform\<close>

text \<open>
  What the code calls and does not define: the \<^verbatim>\<open>fs/promises\<close> functions, timers, the clock,
  \<^verbatim>\<open>JSON.stringify\<close>, the message zod gives a \<^verbatim>\<open>ZodError\<close>, and the two tool handlers that
  are out of scope. They are parameters, over an arbitrary type \<open>'w\<close> of states of the
  world (the file system and the time). A file-system call returns the new world and
  either the message of the \<^verbatim>\<open>Error\<close> its promise rejects with (\<open>Inl\<close>) or the value it
  resolves with (\<open>Inr\<close>: the content for \<^verbatim>\<open>readFile\<close>, unused otherwise).
\<close>

text \<open>
  The calls of the code to \<^verbatim>\<open>fs/promises\<close>. \<open>Mkdir_parent p\<close> is
  \<^verbatim>\<open>fs.mkdir(path.dirname(p), { recursive: true })\<close>; the others carry the arguments of
  \<^verbatim>\<open>writeFile\<close>, \<^verbatim>\<open>readFile\<close>, \<^verbatim>\<open>appendFile\<close>, \<^verbatim>\<open>unlink\<close>, \<^verbatim>\<open>copyFile\<close> and \<^verbatim>\<open>rename\<close>.
  \<open>sleep ms\<close> is what the world becomes while the function waits on
  \<^verbatim>\<open>setTimeout(resolve, ms)\<close>, \<open>now\<close> is \<^verbatim>\<open>new Date().toISOString()\<close>.
\<close>

datatype fs_request =
    Mkdir_parent string
  | WriteFile string string encoding
  | ReadFile string encoding
  | AppendFile string string encoding
  | Unlink string
  | CopyFile string string
  | Rename string string

record 'w platform =
  fs :: "fs_request \<Rightarrow> 'w \<Rightarrow> (string + string) \<times> 'w"
  sleep :: "nat \<Rightarrow> 'w \<Rightarrow> 'w"
  now :: "'w \<Rightarrow> string"
  stringify :: "json \<Rightarrow> string"
  zod_message :: "json \<Rightarrow> string"
  other_tool :: "string \<Rightarrow> json \<Rightarrow> 'w \<Rightarrow> (thrown + string) \<times> 'w"

section \<open>The operation executor\<close>

definition type_name :: "op_type \<Rightarrow> string" where
  "type_name t = (case t of Create \<Rightarrow> ''create'' | Read \<Rightarrow> ''read'' | Update \<Rightarrow> ''update''
     | Delete \<Rightarrow> ''delete'' | Copy \<Rightarrow> ''copy'' | Move \<Rightarrow> ''move'')"

definition encoding_name :: "encoding \<Rightarrow> string" where
  "encoding_name e = (case e of Utf8 \<Rightarrow> ''utf8'' | Base64 \<Rightarrow> ''base64'')"

text \<open>
  A parsed operation as a value: its properties in schema order, the optional ones only
  when present.
\<close>

definition op_json :: "FileOperation \<Rightarrow> (string \<times> json) list" where
  "op_json op =
     [(''type'', JStr (type_name (type op))), (''path'', JStr (path op))]
     @ (case content op of None \<Rightarrow> [] | Some c \<Rightarrow> [(''content'', JStr c)])
     @ (case destination op of None \<Rightarrow> [] | Some d \<Rightarrow> [(''destination'', JStr d)])
     @ [(''encoding'', JStr (encoding_name (encoding op)))]"

text \<open>\<^verbatim>\<open>operation.content || ''\<close>.\<close>

definition content_or_empty :: "FileOperation \<Rightarrow> string" where
  "content_or_empty op = (case content op of None \<Rightarrow> [] | Some c \<Rightarrow> c)"

text \<open>Lines 319-325, the value returned after the \<^verbatim>\<open>switch\<close>.\<close>

definition success_payload :: "'w platform \<Rightarrow> FileOperation \<Rightarrow> nat \<Rightarrow> 'w \<Rightarrow> json" where
  "success_payload pf op attempt w =
     JObj [(''type'', JStr (type_name (type op))), (''path'', JStr (path op)),
           (''timestamp'', JStr (now pf w)), (''success'', JBool True),
           (''attempt'', JNum (of_nat (attempt + 1)))]"

text \<open>Line 296, \<^verbatim>\<open>{ ...operation, content }\<close>: the operation with its content set.\<close>

definition read_payload :: "FileOperation \<Rightarrow> string \<Rightarrow> json" where
  "read_payload op c = JObj (AList.update ''content'' (JStr c) (op_json op))"

text \<open>
  \<^verbatim>\<open>await p\<close> followed by the rest of the \<^verbatim>\<open>try\<close> block: a rejection is thrown at the
  \<^verbatim>\<open>await\<close>, a value goes on.
\<close>

definition await_then ::
  "(string + string) \<times> 'w \<Rightarrow> (string \<Rightarrow> 'w \<Rightarrow> (thrown + json) \<times> 'w) \<Rightarrow> (thrown + json) \<times> 'w" where
  "await_then r k = (case r of (Inl m, w1) \<Rightarrow> (Inl (Error m), w1) | (Inr v, w1) \<Rightarrow> k v w1)"

text \<open>
  Lines 287-325, the \<^verbatim>\<open>try\<close> block of one attempt: \<open>Inl\<close> is what the \<^verbatim>\<open>catch\<close> of line
  326 receives, \<open>Inr\<close> is the value the function returns. \<^verbatim>\<open>!operation.destination\<close>
  holds for a destination that is absent and for the empty string.
\<close>

definition try_body ::
  "'w platform \<Rightarrow> FileOperation \<Rightarrow> nat \<Rightarrow> 'w \<Rightarrow> (thrown + json) \<times> 'w" where
  "try_body pf op attempt w = (case type op of
      Create \<Rightarrow>
        await_then (fs pf (Mkdir_parent (path op)) w) (\<lambda>_ w1.
        await_then (fs pf (WriteFile (path op) (content_or_empty op) (encoding op)) w1) (\<lambda>_ w2.
        (Inr (success_payload pf op attempt w2), w2)))
    | Read \<Rightarrow>
        await_then (fs pf (ReadFile (path op) (encoding op)) w) (\<lambda>c w1.
        (Inr (read_payload op c), w1))
    | Update \<Rightarrow>
        await_then (fs pf (AppendFile (path op) (content_or_empty op) (encoding op)) w) (\<lambda>_ w1.
        (Inr (success_payload pf op attempt w1), w1))
    | Delete \<Rightarrow>
        await_then (fs pf (Unlink (path op)) w) (\<lambda>_ w1.
        (Inr (success_payload pf op attempt w1), w1))
    | Copy \<Rightarrow>
        (case destination op of
           None \<Rightarrow> (Inl (Error ''Destination required for copy''), w)
         | Some d \<Rightarrow>
            (if d = [] then (Inl (Error ''Destination required for copy''), w)
             else
               await_then (fs pf (Mkdir_parent d) w) (\<lambda>_ w1.
               await_then (fs pf (CopyFile (path op) d) w1) (\<lambda>_ w2.
               (Inr (success_payload pf op attempt w2), w2)))))
    | Move \<Rightarrow>
        (case destination op of
           None \<Rightarrow> (Inl (Error ''Destination required for move''), w)
         | Some d \<Rightarrow>
            (if d = [] then (Inl (Error ''Destination required for move''), w)
             else
               await_then (fs pf (Mkdir_parent d) w) (\<lambda>_ w1.
               await_then (fs pf (Rename (path op) d) w1) (\<lambda>_ w2.
               (Inr (success_payload pf op attempt w2), w2))))))"

text \<open>
  One pass of the \<^verbatim>\<open>for\<close> loop of lines 286-332, from the test \<^verbatim>\<open>attempt <= maxRetries\<close>
  to the next point where the function is suspended on the timer or has settled. After a
  failed attempt with \<^verbatim>\<open>attempt < maxRetries\<close> the function waits and the loop goes on
  (\<open>Retry\<close>, with the incremented counter and the new \<^verbatim>\<open>lastError\<close>). Otherwise the counter
  is \<^verbatim>\<open>maxRetries\<close> itself, so the incremented counter fails the loop test and line 334
  throws \<^verbatim>\<open>lastError\<close>, the error just caught, with no suspension in between. When the
  loop test fails on entry, line 334 throws the \<^verbatim>\<open>lastError\<close> carried so far.
\<close>

datatype iteration = Returned json | Thrown thrown | Retry nat thrown

definition loop_iteration ::
  "'w platform \<Rightarrow> FileOperation \<Rightarrow> BatchOptions \<Rightarrow> nat \<Rightarrow> thrown \<Rightarrow> 'w \<Rightarrow> iteration \<times> 'w" where
  "loop_iteration pf op opts attempt lastError w =
     (if of_nat attempt \<le> retryAttempts opts then
        (case try_body pf op attempt w of
           (Inr v, w1) \<Rightarrow> (Returned v, w1)
         | (Inl e, w1) \<Rightarrow>
             (if of_nat attempt < retryAttempts opts
              then (Retry (attempt + 1) e, sleep pf (1000 * (attempt + 1)) w1)
              else (Thrown e, w1)))
      else (Thrown lastError, w))"

lemma loop_iteration_Retry:
  "loop_iteration pf op opts attempt lastError w = (Retry a e, w1) \<Longrightarrow>
   a = Suc attempt \<and> of_nat attempt < retryAttempts opts"
  by (auto simp: loop_iteration_def split: if_splits prod.splits sum.splits)

definition attempts_left :: "BatchOptions \<Rightarrow> nat \<Rightarrow> nat" where
  "attempts_left opts attempt = nat \<lceil>retryAttempts opts\<rceil> - attempt"

lemma attempts_left_decreases:
  "of_nat attempt < retryAttempts opts \<Longrightarrow>
   attempts_left opts (Suc attempt) < attempts_left opts attempt"
proof -
  assume "of_nat attempt < retryAttempts opts"
  then have "int attempt < \<lceil>retryAttempts opts\<rceil>" by (simp add: less_ceiling_iff)
  then show ?thesis by (simp add: attempts_left_def)
qed

function exec_loop ::
  "'w platform \<Rightarrow> FileOperation \<Rightarrow> BatchOptions \<Rightarrow> nat \<Rightarrow> thrown \<Rightarrow> 'w \<Rightarrow> (thrown + json) \<times> 'w" where
  "exec_loop pf op opts attempt lastError w =
     (case loop_iteration pf op opts attempt lastError w of
        (Returned v, w1) \<Rightarrow> (Inr v, w1)
      | (Thrown e, w1) \<Rightarrow> (Inl e, w1)
      | (Retry attempt1 e, w1) \<Rightarrow> exec_loop pf op opts attempt1 e w1)"
  by pat_completeness auto
termination
proof (relation "measure (\<lambda>(pf, op, opts, attempt, lastError, w). attempts_left opts attempt)")
  show "wf (measure (\<lambda>(pf, op, opts, attempt, lastError, w). attempts_left opts attempt))"
    by simp
next
  fix pf :: "'w platform" and op opts attempt lastError w x1 x2 a e
  assume "(x1, x2) = loop_iteration pf op opts attempt lastError w" and "x1 = Retry a e"
  then have "loop_iteration pf op opts attempt lastError w = (Retry a e, x2)" by simp
  from loop_iteration_Retry[OF this]
  show "((pf, op, opts, a, e, x2), (pf, op, opts, attempt, lastError, w))
        \<in> measure (\<lambda>(pf, op, opts, attempt, lastError, w). attempts_left opts attempt)"
    by (simp add: attempts_left_decreases)
qed

declare exec_loop.simps [simp del]

text \<open>Lines 283-284: the loop starts at attempt 0 with \<^verbatim>\<open>lastError = null\<close>.\<close>

definition executeFileOperation ::
  "'w platform \<Rightarrow> FileOperation \<Rightarrow> BatchOptions \<Rightarrow> 'w \<Rightarrow> (thrown + json) \<times> 'w" where
  "executeFileOperation pf op opts w = exec_loop pf op opts 0 Null w"

section \<open>The batch coordinator\<close>

text \<open>
  \<^verbatim>\<open>handleBatchFileOperations\<close> runs the callbacks of a group concurrently on one thread: a
  callback runs until it awaits, and which pending one goes on next is decided by the
  order in which the file system and the timers answer. The model makes that order an
  argument, the schedule, and every property below is proved for all schedules.

  For this the executor is read once more, await by await. \<open>attempt_calls\<close> lists the
  file-system calls of the \<^verbatim>\<open>try\<close> block of lines 287-325 in the order in which they are
  made, or gives the error that lines 307 and 313 throw before any call;
  \<open>attempt_value\<close> is the value returned once the last call has answered with \<open>v\<close>: line
  296 for \<^verbatim>\<open>read\<close>, lines 319-325 otherwise. That the two agree with \<^const>\<open>try_body\<close> is
  proved below (\<open>try_body_by_calls\<close>).
\<close>

definition attempt_calls :: "FileOperation \<Rightarrow> thrown + fs_request \<times> fs_request list" where
  "attempt_calls op = (case type op of
      Create \<Rightarrow>
        Inr (Mkdir_parent (path op), [WriteFile (path op) (content_or_empty op) (encoding op)])
    | Read \<Rightarrow> Inr (ReadFile (path op) (encoding op), [])
    | Update \<Rightarrow> Inr (AppendFile (path op) (content_or_empty op) (encoding op), [])
    | Delete \<Rightarrow> Inr (Unlink (path op), [])
    | Copy \<Rightarrow>
        (case destination op of
           None \<Rightarrow> Inl (Error ''Destination required for copy'')
         | Some d \<Rightarrow>
            (if d = [] then Inl (Error ''Destination required for copy'')
             else Inr (Mkdir_parent d, [CopyFile (path op) d])))
    | Move \<Rightarrow>
        (case destination op of
           None \<Rightarrow> Inl (Error ''Destination required for move'')
         | Some d \<Rightarrow>
            (if d = [] then Inl (Error ''Destination required for move'')
             else Inr (Mkdir_parent d, [Rename (path op) d]))))"

definition attempt_value :: "'w platform \<Rightarrow> FileOperation \<Rightarrow> nat \<Rightarrow> string \<Rightarrow> 'w \<Rightarrow> json" where
  "attempt_value pf op attempt v w =
     (if type op = Read then read_payload op v else success_payload pf op attempt w)"

text \<open>
  A task is a call of \<^verbatim>\<open>executeFileOperation\<close> that the limiter has started and that has
  not settled: its operation, the loop variables \<^verbatim>\<open>attempt\<close> and \<^verbatim>\<open>lastError\<close>, and what it
  waits for. \<open>Answer c cs\<close>: the call \<open>c\<close> has been made and its promise is pending, the
  calls \<open>cs\<close> of the attempt are still to be made. \<open>Timer ms\<close>: the \<^verbatim>\<open>setTimeout\<close> of line
  329 is pending. \<open>Rejecting e\<close>: the function has thrown \<open>e\<close> at line 334 without having
  awaited since it was called, and the \<^verbatim>\<open>catch\<close> of line 220 has not run yet.
\<close>

datatype waiting = Answer fs_request "fs_request list" | Timer nat | Rejecting thrown

record task =
  t_op :: FileOperation
  t_attempt :: nat
  t_lastError :: thrown
  t_wait :: waiting

text \<open>
  The \<^verbatim>\<open>catch\<close> of lines 326-331 at the given attempt: with \<^verbatim>\<open>attempt < maxRetries\<close> the
  function sets the timer and waits; otherwise the counter is \<^verbatim>\<open>maxRetries\<close>, the
  incremented counter fails the loop test and line 334 throws the error just caught.
\<close>

definition on_failure :: "BatchOptions \<Rightarrow> FileOperation \<Rightarrow> nat \<Rightarrow> thrown \<Rightarrow> task" where
  "on_failure opts op attempt e =
     (if of_nat attempt < retryAttempts opts
      then \<lparr>t_op = op, t_attempt = attempt, t_lastError = e, t_wait = Timer (1000 * (attempt + 1))\<rparr>
      else \<lparr>t_op = op, t_attempt = attempt, t_lastError = e, t_wait = Rejecting e\<rparr>)"

text \<open>
  The function from the loop test \<^verbatim>\<open>attempt <= maxRetries\<close> of line 286 to its next
  \<^verbatim>\<open>await\<close>: it makes the first call of the attempt and waits for the answer, or catches
  the error thrown before any call; when the test fails, line 334 throws \<^verbatim>\<open>lastError\<close>.
  \<open>launch\<close> is the call of the function itself, lines 283-286.
\<close>

definition enter_loop :: "BatchOptions \<Rightarrow> FileOperation \<Rightarrow> nat \<Rightarrow> thrown \<Rightarrow> task" where
  "enter_loop opts op attempt lastError =
     (if of_nat attempt \<le> retryAttempts opts then
        (case attempt_calls op of
           Inr (c, cs) \<Rightarrow>
             \<lparr>t_op = op, t_attempt = attempt, t_lastError = lastError, t_wait = Answer c cs\<rparr>
         | Inl e \<Rightarrow> on_failure opts op attempt e)
      else \<lparr>t_op = op, t_attempt = attempt, t_lastError = lastError,
             t_wait = Rejecting lastError\<rparr>)"

definition launch :: "BatchOptions \<Rightarrow> FileOperation \<Rightarrow> task" where
  "launch opts op = enter_loop opts op 0 Null"

text \<open>
  What a task does when what it waits for arrives, up to its next \<^verbatim>\<open>await\<close>. An answer:
  the next call of the attempt is made, or the value is returned, or the rejection is
  caught. The timer: line 286 increments the counter and the loop is entered again. A
  throw that follows an answer or the timer reaches the callback at once (\<open>settle_or_wait\<close>).
  A call acts on the world when its answer is delivered: between the call and the
  answer the call is pending (\<open>Answer\<close>), and the world shows the calls answered so far.
\<close>

datatype progress = Waits task | Returns json | Throws thrown

definition settle_or_wait :: "task \<Rightarrow> progress" where
  "settle_or_wait t = (case t_wait t of Rejecting e \<Rightarrow> Throws e | _ \<Rightarrow> Waits t)"

definition task_step :: "'w platform \<Rightarrow> BatchOptions \<Rightarrow> task \<Rightarrow> 'w \<Rightarrow> progress \<times> 'w" where
  "task_step pf opts t w = (case t_wait t of
      Answer c cs \<Rightarrow>
        (case fs pf c w of
           (Inr v, w1) \<Rightarrow>
             (case cs of
                [] \<Rightarrow> (Returns (attempt_value pf (t_op t) (t_attempt t) v w1), w1)
              | c1 # cs1 \<Rightarrow> (Waits (t\<lparr>t_wait := Answer c1 cs1\<rparr>), w1))
         | (Inl m, w1) \<Rightarrow>
             (settle_or_wait (on_failure opts (t_op t) (t_attempt t) (Error m)), w1))
    | Timer ms \<Rightarrow>
        (settle_or_wait (enter_loop opts (t_op t) (t_attempt t + 1) (t_lastError t)),
         sleep pf ms w)
    | Rejecting e \<Rightarrow> (Throws e, w))"

text \<open>
  The state of a run: the world, the arrays \<^verbatim>\<open>results\<close> and \<^verbatim>\<open>errors\<close> of lines 210-211,
  the limiter's queue and its running callbacks, and whether a promise passed to the
  current \<^verbatim>\<open>Promise.all\<close> has been rejected. \<open>settled\<close> is a history variable, not a
  variable of the code: the executor calls that have settled, in that order, each with
  its operation and what it returned (\<open>Inr\<close>) or threw (\<open>Inl\<close>).
\<close>

record 'w coord =
  world :: 'w
  results_arr :: "json list"
  errors_arr :: "json list"
  queue :: "FileOperation list"
  active :: "task list"
  rejected :: bool
  settled :: "(FileOperation \<times> (thrown + json)) list"

definition idle :: "'w \<Rightarrow> 'w coord" where
  "idle w = \<lparr>world = w, results_arr = [], errors_arr = [], queue = [], active = [],
             rejected = False, settled = []\<rparr>"

text \<open>The objects pushed at line 218 and at lines 221-226.\<close>

definition success_record :: "FileOperation \<Rightarrow> json \<Rightarrow> json" where
  "success_record op v =
     JObj [(''operation'', JObj (op_json op)), (''result'', v), (''status'', JStr ''success'')]"

definition failure_record :: "FileOperation \<Rightarrow> thrown \<Rightarrow> json" where
  "failure_record op e =
     JObj [(''operation'', JObj (op_json op)), (''error'', JStr (error_message e)),
           (''status'', JStr ''failed'')]"

text \<open>
  Modelled from the spec: the concurrency limiter is the package \<^verbatim>\<open>p-limit\<close>, which the
  repository imports and does not contain. Section 4.3 of the specification: a gate with
  a positive integer capacity \<open>N\<close>, at most \<open>N\<close> units of work in flight, the others queued
  in submission order and started as slots free. \<^verbatim>\<open>pLimit(n)\<close> makes the gate; the package
  refuses a capacity that is not a positive integer with a \<^verbatim>\<open>TypeError\<close>, which the
  schema's \<^verbatim>\<open>z.number().min(1).max(100)\<close> does not exclude. \<open>start_queued\<close> starts queued
  operations, oldest first, while fewer than \<open>limit\<close> are running: the callback of line
  215 is invoked and calls \<^verbatim>\<open>executeFileOperation\<close>, which runs to its first \<^verbatim>\<open>await\<close>.
\<close>

definition pLimit :: "rat \<Rightarrow> thrown + nat" where
  "pLimit concurrency =
     (if of_int \<lfloor>concurrency\<rfloor> = concurrency \<and> 0 < concurrency then Inr (nat \<lfloor>concurrency\<rfloor>)
      else Inl (Error ''Expected `concurrency` to be a number from 1 and up''))"

definition start_queued :: "nat \<Rightarrow> BatchOptions \<Rightarrow> 'w coord \<Rightarrow> 'w coord" where
  "start_queued limit opts st =
     st\<lparr>active := active st @ map (launch opts) (take (limit - length (active st)) (queue st)),
        queue := drop (limit - length (active st)) (queue st)\<rparr>"

text \<open>
  The callback of lines 215-233 around running task \<open>i\<close>, when what the task waits for
  arrives. If the executor awaits again, the task stays. If it returns, line 218 pushes
  the success record and the promise is fulfilled. If it throws, line 226 pushes the
  failure record, and line 229 rethrows under \<^verbatim>\<open>stopOnError\<close>, which rejects the promise;
  otherwise the promise is fulfilled with the failure record. In both cases the limiter's
  slot is free and the limiter starts what is queued.
\<close>

definition resume_task ::
  "'w platform \<Rightarrow> BatchOptions \<Rightarrow> nat \<Rightarrow> nat \<Rightarrow> 'w coord \<Rightarrow> 'w coord" where
  "resume_task pf opts limit i st =
     (let t = active st ! i; others = take i (active st) @ drop (Suc i) (active st)
      in case task_step pf opts t (world st) of
           (Waits t1, w1) \<Rightarrow> st\<lparr>world := w1, active := (active st)[i := t1]\<rparr>
         | (Returns v, w1) \<Rightarrow>
             start_queued limit opts
               (st\<lparr>world := w1, active := others,
                   results_arr := results_arr st @ [success_record (t_op t) v],
                   settled := settled st @ [(t_op t, Inr v)]\<rparr>)
         | (Throws e, w1) \<Rightarrow>
             start_queued limit opts
               (st\<lparr>world := w1, active := others,
                   errors_arr := errors_arr st @ [failure_record (t_op t) e],
                   rejected := (rejected st \<or> stopOnError opts),
                   settled := settled st @ [(t_op t, Inl e)]\<rparr>))"

text \<open>
  A schedule is a list of choices: \<open>Advance n\<close> picks the running task number
  \<open>n mod length active\<close>, \<open>Resume\<close> the oldest one. When the list is used up, every
  further choice is \<open>Resume\<close>.
\<close>

datatype choice = Resume | Advance nat

definition next_choice :: "choice list \<Rightarrow> choice" where
  "next_choice sched = (case sched of [] \<Rightarrow> Resume | c # _ \<Rightarrow> c)"

definition chosen :: "choice list \<Rightarrow> 'w coord \<Rightarrow> nat" where
  "chosen sched st =
     (case next_choice sched of Resume \<Rightarrow> 0 | Advance n \<Rightarrow> n mod length (active st))"

definition is_rejecting :: "task \<Rightarrow> bool" where
  "is_rejecting t = (case t_wait t of Rejecting e \<Rightarrow> True | _ \<Rightarrow> False)"

text \<open>
  The steps still possible: the measure by which \<open>await_all\<close> terminates.
\<close>

definition wait_weight :: "waiting \<Rightarrow> nat" where
  "wait_weight x = (case x of Answer c cs \<Rightarrow> 2 + length cs | Timer ms \<Rightarrow> 1 | Rejecting e \<Rightarrow> 0)"

definition task_weight :: "BatchOptions \<Rightarrow> task \<Rightarrow> nat" where
  "task_weight opts t = Suc (4 * attempts_left opts (t_attempt t) + wait_weight (t_wait t))"

definition work :: "BatchOptions \<Rightarrow> 'w coord \<Rightarrow> nat" where
  "work opts st =
     sum_list (map (task_weight opts) (active st))
     + length (queue st) * (4 * attempts_left opts 0 + 4)"

lemma attempt_calls_short: "attempt_calls op = Inr (c, cs) \<Longrightarrow> length cs \<le> 1"
  by (auto simp: attempt_calls_def split: op_type.splits option.splits if_splits)

lemma enter_loop_weight:
  "task_weight opts (enter_loop opts op a le) \<le> 4 * attempts_left opts a + 4"
  using attempt_calls_short[of op]
  by (auto simp: enter_loop_def on_failure_def task_weight_def wait_weight_def
      split: sum.splits prod.splits)

lemma work_launched:
  "sum_list (map (task_weight opts) (map (launch opts) xs))
   \<le> length xs * (4 * attempts_left opts 0 + 4)"
proof (induction xs)
  case Nil
  then show ?case by simp
next
  case (Cons x xs)
  have "task_weight opts (launch opts x) \<le> 4 * attempts_left opts 0 + 4"
    unfolding launch_def by (rule enter_loop_weight)
  with Cons show ?case by simp
qed

lemma work_start_queued: "work opts (start_queued limit opts st) \<le> work opts st"
proof -
  let ?k = "limit - length (active st)"
  let ?q = "4 * attempts_left opts 0 + 4"
  have "length (queue st) = length (take ?k (queue st)) + length (drop ?k (queue st))"
    by simp
  then have "length (queue st) * ?q
     = length (take ?k (queue st)) * ?q + length (drop ?k (queue st)) * ?q"
    by (metis add_mult_distrib)
  moreover have "sum_list (map (task_weight opts) (map (launch opts) (take ?k (queue st))))
      \<le> length (take ?k (queue st)) * ?q"
    by (rule work_launched)
  ultimately show ?thesis
    by (simp add: work_def start_queued_def del: length_take length_drop)
qed

lemma sum_list_split_nth:
  "i < length xs \<Longrightarrow>
   sum_list (map f xs) = sum_list (map f (take i xs @ drop (Suc i) xs)) + (f (xs ! i) :: nat)"
proof -
  assume "i < length xs"
  then have "xs = take i xs @ xs ! i # drop (Suc i) xs" by (rule id_take_nth_drop)
  then have "sum_list (map f xs) = sum_list (map f (take i xs @ xs ! i # drop (Suc i) xs))"
    by simp
  then show ?thesis by simp
qed

lemma sum_list_update_nth:
  "i < length xs \<Longrightarrow>
   sum_list (map f (xs[i := y])) = sum_list (map f (take i xs @ drop (Suc i) xs)) + (f y :: nat)"
  using sum_list_split_nth[of i "xs[i := y]" f] by simp

lemma settle_or_wait_Waits: "settle_or_wait t = Waits t1 \<Longrightarrow> t1 = t \<and> \<not> is_rejecting t"
  by (auto simp: settle_or_wait_def is_rejecting_def split: waiting.splits)

lemma enter_loop_next_weight:
  assumes "\<not> is_rejecting (enter_loop opts op (Suc a) le)"
  shows "task_weight opts (enter_loop opts op (Suc a) le) < Suc (Suc (4 * attempts_left opts a))"
proof -
  from assms have le: "of_nat (Suc a) \<le> retryAttempts opts"
    by (auto simp: enter_loop_def is_rejecting_def split: if_splits)
  then have "of_nat a < retryAttempts opts" by simp
  then have "attempts_left opts (Suc a) < attempts_left opts a"
    by (rule attempts_left_decreases)
  with enter_loop_weight[of opts op "Suc a" le] show ?thesis by simp
qed

lemma task_step_Waits:
  assumes "task_step pf opts t w = (Waits t1, w1)"
  shows "task_weight opts t1 < task_weight opts t \<and> t_op t1 = t_op t \<and> \<not> is_rejecting t1"
proof (cases "t_wait t")
  case (Answer c cs)
  show ?thesis
  proof (cases "fs pf c w")
    case (Pair ans w2)
    show ?thesis
    proof (cases ans)
      case (Inr v)
      with assms Answer Pair show ?thesis
        by (cases cs) (auto simp: task_step_def task_weight_def wait_weight_def is_rejecting_def)
    next
      case (Inl m)
      with assms Answer Pair
      have s: "settle_or_wait (on_failure opts (t_op t) (t_attempt t) (Error m)) = Waits t1"
        by (simp add: task_step_def)
      from settle_or_wait_Waits[OF s] Answer show ?thesis
        by (auto simp: on_failure_def task_weight_def wait_weight_def is_rejecting_def
            split: if_splits)
    qed
  qed
next
  case (Timer ms)
  with assms
  have s: "settle_or_wait (enter_loop opts (t_op t) (Suc (t_attempt t)) (t_lastError t)) = Waits t1"
    by (simp add: task_step_def)
  from settle_or_wait_Waits[OF s]
  have t1: "t1 = enter_loop opts (t_op t) (Suc (t_attempt t)) (t_lastError t)"
    and nr: "\<not> is_rejecting (enter_loop opts (t_op t) (Suc (t_attempt t)) (t_lastError t))"
    by simp_all
  have op: "t_op t1 = t_op t"
    unfolding t1 by (simp add: enter_loop_def on_failure_def split: sum.splits prod.splits)
  from enter_loop_next_weight[OF nr] Timer t1 nr op show ?thesis
    by (simp add: task_weight_def wait_weight_def)
next
  case (Rejecting e)
  with assms show ?thesis by (simp add: task_step_def)
qed

lemma work_resume_task:
  assumes "i < length (active st)"
  shows "work opts (resume_task pf opts limit i st) < work opts st"
proof -
  let ?t = "active st ! i"
  obtain r w1 where it: "task_step pf opts ?t (world st) = (r, w1)"
    by (cases "task_step pf opts ?t (world st)")
  note split = sum_list_split_nth[OF assms, of "task_weight opts"]
  have pos: "0 < task_weight opts ?t" by (simp add: task_weight_def)
  show ?thesis
  proof (cases r)
    case (Returns v)
    let ?s = "st\<lparr>world := w1, active := take i (active st) @ drop (Suc i) (active st),
                 results_arr := results_arr st @ [success_record (t_op ?t) v],
                 settled := settled st @ [(t_op ?t, Inr v)]\<rparr>"
    have "resume_task pf opts limit i st = start_queued limit opts ?s"
      using it Returns by (simp add: resume_task_def Let_def)
    moreover have "work opts ?s < work opts st" using split pos by (simp add: work_def)
    ultimately show ?thesis using work_start_queued[of opts limit ?s] by simp
  next
    case (Throws e)
    let ?s = "st\<lparr>world := w1, active := take i (active st) @ drop (Suc i) (active st),
                 errors_arr := errors_arr st @ [failure_record (t_op ?t) e],
                 rejected := (rejected st \<or> stopOnError opts),
                 settled := settled st @ [(t_op ?t, Inl e)]\<rparr>"
    have "resume_task pf opts limit i st = start_queued limit opts ?s"
      using it Throws by (simp add: resume_task_def Let_def)
    moreover have "work opts ?s < work opts st" using split pos by (simp add: work_def)
    ultimately show ?thesis using work_start_queued[of opts limit ?s] by simp
  next
    case (Waits t1)
    with it task_step_Waits[of pf opts ?t "world st" t1 w1]
    have "task_weight opts t1 < task_weight opts ?t" by simp
    then show ?thesis using it Waits split sum_list_update_nth[OF assms, of "task_weight opts" t1]
      by (simp add: resume_task_def Let_def work_def)
  qed
qed

lemma chosen_valid: "active st \<noteq> [] \<Longrightarrow> chosen sched st < length (active st)"
  by (simp add: chosen_def split: choice.splits)

text \<open>
  \<^verbatim>\<open>await Promise.all(promises)\<close>, lines 237-243, when \<open>watching\<close>: the tasks go on as the
  schedule says until none is running, or until a promise is rejected. \<^verbatim>\<open>Promise.all\<close>
  rejects as soon as one promise does, without waiting for the others, and the handler
  resumes in the same turn of the event loop: before any answer of the file system and
  before any timer. Only callbacks about to catch a throw made without an \<^verbatim>\<open>await\<close>
  (\<open>Rejecting\<close>) can still run before the handler does; the schedule says whether they
  do. With \<open>watching\<close> false nobody awaits: this is what the limiter and the tasks still
  do after the handler has returned.
\<close>

function await_all ::
  "'w platform \<Rightarrow> BatchOptions \<Rightarrow> nat \<Rightarrow> bool \<Rightarrow> choice list \<Rightarrow> 'w coord \<Rightarrow> choice list \<times> 'w coord" where
  "await_all pf opts limit watching sched st =
     (if active st = [] then (sched, st)
      else if watching \<and> rejected st
              \<and> (next_choice sched = Resume \<or> \<not> is_rejecting (active st ! chosen sched st))
        then (tl sched, st)
      else await_all pf opts limit watching (tl sched)
             (resume_task pf opts limit (chosen sched st) st))"
  by pat_completeness auto
termination
  by (relation "measure (\<lambda>(pf, opts, limit, watching, sched, st). work opts st)")
     (auto simp: work_resume_task chosen_valid)

declare await_all.simps [simp del]

text \<open>
  Lines 214-235, \<^verbatim>\<open>group.map(op => limit(...))\<close>: every operation of the group is handed to
  the limiter, which starts as many as its capacity allows; \<^verbatim>\<open>Promise.all\<close> then watches
  the promises of this group, none of which is rejected yet.
\<close>

definition submit :: "nat \<Rightarrow> BatchOptions \<Rightarrow> FileOperation list \<Rightarrow> 'w coord \<Rightarrow> 'w coord" where
  "submit limit opts grp st =
     start_queued limit opts (st\<lparr>queue := queue st @ grp, rejected := False\<rparr>)"

text \<open>
  The \<^verbatim>\<open>for (const group of grouped)\<close> loop, lines 213-244. \<^verbatim>\<open>Promise.all\<close> rejects only if
  a callback rethrew, which line 228 allows only under \<^verbatim>\<open>stopOnError\<close>; the \<^verbatim>\<open>catch\<close> of
  line 239 then leaves the loop.
\<close>

fun run_groups ::
  "'w platform \<Rightarrow> BatchOptions \<Rightarrow> nat \<Rightarrow> choice list \<Rightarrow> FileOperation list list \<Rightarrow> 'w coord
   \<Rightarrow> choice list \<times> 'w coord" where
  "run_groups pf opts limit sched [] st = (sched, st)"
| "run_groups pf opts limit sched (grp # rest) st =
     (case await_all pf opts limit True sched (submit limit opts grp st) of
        (sched1, st1) \<Rightarrow>
          (if rejected st1 \<and> stopOnError opts then (sched1, st1)
           else run_groups pf opts limit sched1 rest st1))"
text \<open>Lines 205-244: grouping, then the loop from empty \<^verbatim>\<open>results\<close> and \<^verbatim>\<open>errors\<close>.\<close>

definition coordinate ::
  "'w platform \<Rightarrow> BatchOptions \<Rightarrow> nat \<Rightarrow> choice list \<Rightarrow> FileOperation list \<Rightarrow> 'w
   \<Rightarrow> choice list \<times> 'w coord" where
  "coordinate pf opts limit sched ops w =
     run_groups pf opts limit sched (grouped_of (groupByType opts) ops) (idle w)"

text \<open>Lines 246-252.\<close>

record BatchSummary =
  total :: nat
  successful :: nat
  failed :: nat
  results :: "json list"
  errors :: "json list"

definition summary_of :: "FileOperation list \<Rightarrow> 'w coord \<Rightarrow> BatchSummary" where
  "summary_of ops st =
     \<lparr>total = length ops, successful = length (results_arr st), failed = length (errors_arr st),
      results = results_arr st, errors = errors_arr st\<rparr>"

definition summary_json :: "BatchSummary \<Rightarrow> json" where
  "summary_json s =
     JObj [(''total'', JNum (of_nat (total s))), (''successful'', JNum (of_nat (successful s))),
           (''failed'', JNum (of_nat (failed s))), (''results'', JArr (results s)),
           (''errors'', JArr (errors s))]"

text \<open>
  \<^verbatim>\<open>handleBatchFileOperations\<close>, lines 197-264. The result is what the function throws
  (\<open>Inl\<close>) or the \<^verbatim>\<open>text\<close> of the one content item it returns (\<open>Inr\<close>), with the rest of the
  schedule and the state of the run at the moment of the return. The two \<^verbatim>\<open>logger.info\<close>
  calls write to a log file and are left out.
\<close>

definition handleBatchFileOperations ::
  "'w platform \<Rightarrow> choice list \<Rightarrow> json \<Rightarrow> 'w \<Rightarrow> (thrown + string) \<times> choice list \<times> 'w coord" where
  "handleBatchFileOperations pf sched args w =
     (case parse_BatchRequest args of
        None \<Rightarrow> (Inl (Error (zod_message pf args)), sched, idle w)
      | Some request \<Rightarrow>
         (case resolve_options request of
            None \<Rightarrow> (Inl (Error (zod_message pf (JObj []))), sched, idle w)
          | Some opts \<Rightarrow>
             (case pLimit (maxConcurrent opts) of
                Inl e \<Rightarrow> (Inl e, sched, idle w)
              | Inr limit \<Rightarrow>
                 (case coordinate pf opts limit sched (operations request) w of
                    (sched1, st) \<Rightarrow>
                      (Inr (stringify pf (summary_json (summary_of (operations request) st))),
                       sched1, st)))))"

text \<open>
  The \<^verbatim>\<open>CallToolRequestSchema\<close> handler, lines 169-194: the \<^verbatim>\<open>switch\<close> on the tool name
  inside \<^verbatim>\<open>try\<close>, and the \<^verbatim>\<open>catch\<close> that returns the text \<^verbatim>\<open>Error: \<close> and the message. The
  result is the \<^verbatim>\<open>text\<close> of the content item returned.
\<close>

definition callTool ::
  "'w platform \<Rightarrow> choice list \<Rightarrow> string \<Rightarrow> json \<Rightarrow> 'w \<Rightarrow> string \<times> choice list \<times> 'w coord" where
  "callTool pf sched name args w =
     (case (if name = ''batch_file_operations'' then handleBatchFileOperations pf sched args w
            else if name = ''batch_code_analysis'' \<or> name = ''batch_transform''
              then (case other_tool pf name args w of (r, w1) \<Rightarrow> (r, sched, idle w1))
            else (Inl (Error (''Unknown tool: '' @ name)), sched, idle w)) of
        (Inr response, rest) \<Rightarrow> (response, rest)
      | (Inl error, rest) \<Rightarrow> (''Error: '' @ error_message error, rest))"
section \<open>Notions used to state the executor's retry contract\<close>

text \<open>
  The world in which attempt \<open>n\<close> (counted from 0) starts when every earlier attempt
  failed: after each failed attempt \<open>i\<close> the executor waits \<open>1000 * (i + 1)\<close> ms. And the
  \<^verbatim>\<open>attempt\<close> property of a returned value, if it has one.
\<close>

fun before_attempt :: "'w platform \<Rightarrow> FileOperation \<Rightarrow> 'w \<Rightarrow> nat \<Rightarrow> 'w" where
  "before_attempt pf op w 0 = w"
| "before_attempt pf op w (Suc n) =
     sleep pf (1000 * (n + 1)) (snd (try_body pf op n (before_attempt pf op w n)))"

definition attempt_of :: "json \<Rightarrow> json option" where
  "attempt_of v = (case v of JObj props \<Rightarrow> obj_get props ''attempt'' | _ \<Rightarrow> None)"

section \<open>Notions used to state the coordinator's contract\<close>

text \<open>
  Read off the history \<open>settled\<close>: the records the callback pushes for the successes and
  for the failures, and the bare values the executor returned. \<open>submitted\<close> lists the
  operations handed to the limiter so far; \<open>started\<close> counts those whose callback the
  limiter has invoked, that is, for which \<^verbatim>\<open>executeFileOperation\<close> was called.
\<close>

fun success_records :: "(FileOperation \<times> (thrown + json)) list \<Rightarrow> json list" where
  "success_records [] = []"
| "success_records ((op, Inr v) # xs) = success_record op v # success_records xs"
| "success_records ((op, Inl e) # xs) = success_records xs"

fun failure_records :: "(FileOperation \<times> (thrown + json)) list \<Rightarrow> json list" where
  "failure_records [] = []"
| "failure_records ((op, Inr v) # xs) = failure_records xs"
| "failure_records ((op, Inl e) # xs) = failure_record op e # failure_records xs"

fun success_payloads :: "(FileOperation \<times> (thrown + json)) list \<Rightarrow> json list" where
  "success_payloads [] = []"
| "success_payloads ((op, Inr v) # xs) = v # success_payloads xs"
| "success_payloads ((op, Inl e) # xs) = success_payloads xs"

text \<open>The successes and the failures of a history, each with its operation, in order.\<close>

fun successes :: "(FileOperation \<times> (thrown + json)) list \<Rightarrow> (FileOperation \<times> json) list" where
  "successes [] = []"
| "successes ((op, Inr v) # xs) = (op, v) # successes xs"
| "successes ((op, Inl e) # xs) = successes xs"

fun failures :: "(FileOperation \<times> (thrown + json)) list \<Rightarrow> (FileOperation \<times> thrown) list" where
  "failures [] = []"
| "failures ((op, Inr v) # xs) = failures xs"
| "failures ((op, Inl e) # xs) = (op, e) # failures xs"

definition submitted :: "'w coord \<Rightarrow> FileOperation list" where
  "submitted st = map fst (settled st) @ map t_op (active st) @ queue st"

definition started :: "'w coord \<Rightarrow> nat" where
  "started st = length (settled st) + length (active st)"

text \<open>
  Invariants of a run, proved below. \<open>records_ok\<close>: the two arrays hold the records of
  the settled calls. \<open>rejection_ok\<close>: under \<^verbatim>\<open>stopOnError\<close> a promise of the current group is
  rejected exactly when a failure has been recorded, and without it none ever is.
  \<open>filled\<close>: nothing waits in the queue while the limiter has a free slot.
  \<open>within_group\<close>: what is queued or running, and every failure recorded, belongs to the
  given group. \<open>launched_ok\<close>: a task about to reject without having awaited is as the
  limiter launched it. \<open>launch_failure\<close>: the outcome of a call that threw before its
  first \<^verbatim>\<open>await\<close>. \<open>sync_after_failure\<close>: whatever is recorded after the first failure
  is such an outcome, one that needed no answer of the file system and no timer.
\<close>

definition records_ok :: "'w coord \<Rightarrow> bool" where
  "records_ok st \<longleftrightarrow>
     results_arr st = success_records (settled st) \<and> errors_arr st = failure_records (settled st)"

definition rejection_ok :: "BatchOptions \<Rightarrow> 'w coord \<Rightarrow> bool" where
  "rejection_ok opts st \<longleftrightarrow>
     (if stopOnError opts then rejected st = (\<exists>x \<in> set (settled st). isl (snd x))
      else \<not> rejected st)"

definition filled :: "nat \<Rightarrow> 'w coord \<Rightarrow> bool" where
  "filled limit st \<longleftrightarrow> (queue st \<noteq> [] \<longrightarrow> limit \<le> length (active st))"

definition within_group :: "FileOperation list \<Rightarrow> 'w coord \<Rightarrow> bool" where
  "within_group grp st \<longleftrightarrow>
     set (map t_op (active st)) \<union> set (queue st) \<subseteq> set grp
     \<and> (\<forall>x \<in> set (settled st). isl (snd x) \<longrightarrow> fst x \<in> set grp)"

definition launched_ok :: "BatchOptions \<Rightarrow> 'w coord \<Rightarrow> bool" where
  "launched_ok opts st \<longleftrightarrow> (\<forall>t \<in> set (active st). is_rejecting t \<longrightarrow> t = launch opts (t_op t))"

definition launch_failure :: "BatchOptions \<Rightarrow> FileOperation \<times> (thrown + json) \<Rightarrow> bool" where
  "launch_failure opts y \<longleftrightarrow>
     (case snd y of Inl e \<Rightarrow> t_wait (launch opts (fst y)) = Rejecting e | Inr v \<Rightarrow> False)"

fun sync_after_failure ::
  "BatchOptions \<Rightarrow> (FileOperation \<times> (thrown + json)) list \<Rightarrow> bool" where
  "sync_after_failure opts [] = True"
| "sync_after_failure opts (x # xs) =
     (if isl (snd x) then list_all (launch_failure opts) xs else sync_after_failure opts xs)"

text \<open>Operations and options of further scenarios.\<close>

definition op_delete_other :: FileOperation where
  "op_delete_other = \<lparr>type = Delete, path = ''/tmp/other.txt'', content = None, destination = None, encoding = Utf8\<rparr>"

definition stop_options :: BatchOptions where
  "stop_options = \<lparr>maxConcurrent = 10, timeoutMs = 30000, stopOnError = True,
     retryAttempts = 1, groupByType = True\<rparr>"

definition serial_stop_options :: BatchOptions where
  "serial_stop_options = \<lparr>maxConcurrent = 1, timeoutMs = 30000, stopOnError = True,
     retryAttempts = 0, groupByType = True\<rparr>"

text \<open>
  The arguments of the scenarios as the tool receives them, and a request whose options
  start with a given \<open>timeoutMs\<close>.
\<close>

definition empty_args :: json where
  "empty_args = JObj [(''operations'', JArr [])]"

definition fractional_args :: json where
  "fractional_args =
     JObj [(''operations'', JArr []), (''options'', JObj [(''maxConcurrent'', JNum (5 / 2))])]"



definition with_timeout :: "rat \<Rightarrow> (string \<times> json) list \<Rightarrow> json \<Rightarrow> json" where
  "with_timeout t other_options ops =
     JObj [(''operations'', ops), (''options'', JObj ((''timeoutMs'', JNum t) # other_options))]"

definition scenario_ops_json :: json where
  "scenario_ops_json = JArr
     [JObj [(''type'', JStr ''create''), (''path'', JStr ''/tmp/a.txt''), (''content'', JStr ''hi'')],
      JObj [(''type'', JStr ''delete''), (''path'', JStr ''/tmp/missing.txt'')]]"

text \<open>
  For the copy and move operations without a destination: the error that lines 307 and
  313 throw, and the invariant of a run that every outcome recorded for such an operation
  is that error.
\<close>

definition destination_required :: "FileOperation \<Rightarrow> thrown" where
  "destination_required op = Error (''Destination required for '' @ type_name (type op))"

definition lacks_destination :: "FileOperation \<Rightarrow> bool" where
  "lacks_destination op \<longleftrightarrow> (type op = Copy \<or> type op = Move) \<and> destination op = None"

text \<open>\<^verbatim>\<open>!operation.destination\<close> at a \<^verbatim>\<open>copy\<close> or \<^verbatim>\<open>move\<close>: no destination, or the empty one.\<close>

definition no_destination :: "FileOperation \<Rightarrow> bool" where
  "no_destination op \<longleftrightarrow>
     (type op = Copy \<or> type op = Move) \<and> (destination op = None \<or> destination op = Some [])"

definition destination_ok :: "FileOperation \<Rightarrow> 'w coord \<Rightarrow> bool" where
  "destination_ok op st \<longleftrightarrow>
     (\<forall>out. (op, out) \<in> set (settled st) \<longrightarrow> out = Inl (destination_required op))
     \<and> (\<forall>t \<in> set (active st). t_op t = op \<longrightarrow>
           (\<exists>ms. t_wait t = Timer ms \<and> t_lastError t = destination_required op)
           \<or> t_wait t = Rejecting (destination_required op))"

text \<open>
  The state after the one running call of \<open>op\<close> has settled with the given result: what
  the callback of lines 215-233 does with the value or the error of a whole
  \<^verbatim>\<open>executeFileOperation\<close> call.
\<close>

definition settle_with :: "BatchOptions \<Rightarrow> FileOperation \<Rightarrow> (thrown + json) \<times> 'w \<Rightarrow> 'w coord \<Rightarrow> 'w coord" where
  "settle_with opts op r st = (case r of
      (Inr v, w1) \<Rightarrow>
        st\<lparr>world := w1, active := [],
           results_arr := results_arr st @ [success_record op v],
           settled := settled st @ [(op, Inr v)]\<rparr>
    | (Inl e, w1) \<Rightarrow>
        st\<lparr>world := w1, active := [],
           errors_arr := errors_arr st @ [failure_record op e],
           rejected := (rejected st \<or> stopOnError opts),
           settled := settled st @ [(op, Inl e)]\<rparr>)"

section \<open>Scenario data\<close>

text \<open>The two operations of the scenario of section 8 of the specification, and a third.\<close>

definition op_create_a :: FileOperation where
  "op_create_a = \<lparr>type = Create, path = ''/tmp/a.txt'', content = Some ''hi'', destination = None, encoding = Utf8\<rparr>"
definition op_delete_missing :: FileOperation where
  "op_delete_missing = \<lparr>type = Delete, path = ''/tmp/missing.txt'', content = None, destination = None, encoding = Utf8\<rparr>"
definition op_create_b :: FileOperation where
  "op_create_b = \<lparr>type = Create, path = ''/tmp/b.txt'', content = None, destination = None, encoding = Utf8\<rparr>"

subsection \<open>Scenario platforms\<close>

text \<open>
  A small file system: the files with their contents, and the calls it has answered so
  far, in that order.
\<close>

record toy_world =
  files :: "(string \<times> string) list"
  calls :: "fs_request list"
  clock :: nat

definition toy_exists :: "toy_world \<Rightarrow> string \<Rightarrow> bool" where
  "toy_exists w p = (map_of (files w) p \<noteq> None)"

definition toy_read :: "toy_world \<Rightarrow> string \<Rightarrow> string" where
  "toy_read w p = (case map_of (files w) p of None \<Rightarrow> [] | Some c \<Rightarrow> c)"

definition toy_effect :: "fs_request \<Rightarrow> toy_world \<Rightarrow> (string + string) \<times> toy_world" where
  "toy_effect req w = (case req of
      Mkdir_parent p \<Rightarrow> (Inr [], w)
    | WriteFile p c e \<Rightarrow> (Inr [], w\<lparr>files := AList.update p c (files w)\<rparr>)
    | ReadFile p e \<Rightarrow>
        (if toy_exists w p then (Inr (toy_read w p), w) else (Inl ''ENOENT'', w))
    | AppendFile p c e \<Rightarrow> (Inr [], w\<lparr>files := AList.update p (toy_read w p @ c) (files w)\<rparr>)
    | Unlink p \<Rightarrow>
        (if toy_exists w p then (Inr [], w\<lparr>files := AList.delete p (files w)\<rparr>)
         else (Inl ''ENOENT'', w))
    | CopyFile p d \<Rightarrow>
        (if toy_exists w p then (Inr [], w\<lparr>files := AList.update d (toy_read w p) (files w)\<rparr>)
         else (Inl ''ENOENT'', w))
    | Rename p d \<Rightarrow>
        (if toy_exists w p
         then (Inr [], w\<lparr>files := AList.update d (toy_read w p) (AList.delete p (files w))\<rparr>)
         else (Inl ''ENOENT'', w)))"

definition toy_fs :: "fs_request \<Rightarrow> toy_world \<Rightarrow> (string + string) \<times> toy_world" where
  "toy_fs req w = toy_effect req (w\<lparr>calls := calls w @ [req]\<rparr>)"

definition toy :: "toy_world platform" where
  "toy = \<lparr>fs = toy_fs, sleep = (\<lambda>ms w. w\<lparr>clock := clock w + ms\<rparr>), now = (\<lambda>w. ''T''),
          stringify = (\<lambda>j. ''JSON''), zod_message = (\<lambda>j. ''invalid''),
          other_tool = (\<lambda>name args w. (Inr ''other'', w))\<rparr>"

definition toy_start :: toy_world where
  "toy_start = \<lparr>files = [(''/tmp/b.txt'', ''hi'')], calls = [], clock = 0\<rparr>"

text \<open>
  A file system on which the first \<open>k\<close> calls are rejected and every later call succeeds;
  the world is the number of calls made.
\<close>

definition flaky :: "nat \<Rightarrow> nat platform" where
  "flaky k = \<lparr>fs = (\<lambda>req n. (if n < k then Inl ''EBUSY'' else Inr [], Suc n)),
              sleep = (\<lambda>ms n. n), now = (\<lambda>n. ''T''),
              stringify = (\<lambda>j. ''JSON''), zod_message = (\<lambda>j. ''invalid''),
              other_tool = (\<lambda>name args n. (Inr ''other'', n))\<rparr>"

definition op_read_b :: FileOperation where
  "op_read_b = \<lparr>type = Read, path = ''/tmp/b.txt'', content = None, destination = None, encoding = Utf8\<rparr>"
definition op_delete_b :: FileOperation where
  "op_delete_b = \<lparr>type = Delete, path = ''/tmp/b.txt'', content = None, destination = None, encoding = Utf8\<rparr>"
definition op_copy_nodest :: FileOperation where
  "op_copy_nodest = \<lparr>type = Copy, path = ''/tmp/b.txt'', content = None, destination = None, encoding = Utf8\<rparr>"

text \<open>The options that \<^verbatim>\<open>BatchOptionsSchema.parse({})\<close> yields.\<close>

definition default_options :: BatchOptions where
  "default_options = \<lparr>maxConcurrent = 10, timeoutMs = 30000, stopOnError = False,
     retryAttempts = 1, groupByType = True\<rparr>"

text \<open>The definitions that a run on scenario data unfolds.\<close>

lemmas eval_defs =
  coordinate_def grouped_of_def groupOperationsByType_def map_values_def group_push_def
  map_has_def map_get_def map_set_def submit_def start_queued_def launch_def idle_def
  resume_task_def task_step_def enter_loop_def on_failure_def settle_or_wait_def
  attempt_calls_def attempt_value_def next_choice_def chosen_def is_rejecting_def
  toy_def toy_fs_def toy_effect_def toy_exists_def toy_read_def toy_start_def
  success_payload_def read_payload_def success_record_def failure_record_def
  op_json_def type_name_def encoding_name_def error_message_def content_or_empty_def
  summary_of_def started_def

section \<open>Properties of the grouping policy\<close>


lemma update_absent: "k \<notin> fst ` set G \<Longrightarrow> AList.update k v G = G @ [(k, v)]"
  by (induction G) auto

lemma map_other_id:
  "k \<notin> fst ` set G \<Longrightarrow> map (\<lambda>(k', v'). (k', if k' = k then f v' else v')) G = G"
  by (induction G) auto

lemma update_present:
  "map_of G k = Some arr \<Longrightarrow> distinct (map fst G) \<Longrightarrow>
   AList.update k (f arr) G = map (\<lambda>(k', v'). (k', if k' = k then f v' else v')) G"
  by (induction G) (auto simp: map_other_id split: if_splits)

lemma map_of_append_new: "k \<notin> fst ` set G \<Longrightarrow> map_of (G @ [(k, v)]) k = Some v"
  by (induction G) auto

lemma group_push_absent:
  "type op \<notin> fst ` set G \<Longrightarrow> group_push G op = G @ [(type op, [op])]"
proof -
  assume a: "type op \<notin> fst ` set G"
  then have n: "map_of G (type op) = None" by (simp add: map_of_eq_None_iff)
  have u: "AList.update (type op) [op] (G @ [(type op, [])]) = G @ [(type op, [op])]"
    using a by (induction G) auto
  have g: "map_of (G @ [(type op, [])]) (type op) = Some []"
    using a by (rule map_of_append_new)
  show ?thesis
    unfolding group_push_def map_has_def map_get_def map_set_def Let_def
    using n g u by (simp add: update_absent[OF a] del: map_of_append)
qed

lemma group_push_present:
  "distinct (map fst G) \<Longrightarrow> type op \<in> fst ` set G \<Longrightarrow>
   group_push G op = map (\<lambda>(k, v). (k, if k = type op then v @ [op] else v)) G"
proof -
  assume d: "distinct (map fst G)" and k: "type op \<in> fst ` set G"
  then obtain arr where a: "map_of G (type op) = Some arr"
    by (metis map_of_eq_None_iff not_Some_eq)
  have "group_push G op = AList.update (type op) (arr @ [op]) G"
    using a by (simp add: group_push_def map_has_def map_get_def map_set_def)
  also have "\<dots> = map (\<lambda>(k, v). (k, if k = type op then v @ [op] else v)) G"
    using a d by (rule update_present[where f = "\<lambda>v. v @ [op]"])
  finally show ?thesis .
qed

lemma keys_push_present:
  "map fst (map (\<lambda>(k, v). (k, if k = t then v @ [op] else v)) G) = map fst G"
  by (induction G) auto

lemma group_loop_char:
  "distinct (map fst G) \<Longrightarrow>
   group_loop G ops =
     map (\<lambda>(k, v). (k, v @ of_type k ops)) G @
     map (\<lambda>t. (t, of_type t ops)) (filter (\<lambda>t. t \<notin> fst ` set G) (first_seen (map type ops)))"
proof (induction ops arbitrary: G)
  case Nil
  then show ?case by (simp add: of_type_def)
next
  case (Cons op ops)
  show ?case
  proof (cases "type op \<in> fst ` set G")
    case True
    let ?G' = "map (\<lambda>(k, v). (k, if k = type op then v @ [op] else v)) G"
    have gp: "group_push G op = ?G'" using Cons.prems True by (rule group_push_present)
    have keys: "map fst ?G' = map fst G" by (rule keys_push_present)
    have keys': "fst ` set ?G' = fst ` set G" using keys by (metis list.set_map)
    have d': "distinct (map fst ?G')" using Cons.prems keys by metis
    have 1: "map (\<lambda>(k, v). (k, v @ of_type k ops)) ?G' = map (\<lambda>(k, v). (k, v @ of_type k (op # ops))) G"
      by (auto simp: of_type_def)
    have 2: "filter (\<lambda>t. t \<notin> fst ` set G) (first_seen (map type (op # ops)))
           = filter (\<lambda>t. t \<notin> fst ` set G) (first_seen (map type ops))"
      using True by (auto intro!: filter_cong)
    have 3: "map (\<lambda>t. (t, of_type t (op # ops))) (filter (\<lambda>t. t \<notin> fst ` set G) (first_seen (map type ops)))
         = map (\<lambda>t. (t, of_type t ops)) (filter (\<lambda>t. t \<notin> fst ` set G) (first_seen (map type ops)))"
      using True by (auto simp: of_type_def)
    have "group_loop G (op # ops) = group_loop ?G' ops" by (simp add: gp)
    also have "\<dots> = map (\<lambda>(k, v). (k, v @ of_type k ops)) ?G' @
     map (\<lambda>t. (t, of_type t ops)) (filter (\<lambda>t. t \<notin> fst ` set ?G') (first_seen (map type ops)))"
      by (rule Cons.IH[OF d'])
    finally show ?thesis unfolding keys' 1 2 3 .
  next
    case False
    let ?G' = "G @ [(type op, [op])]"
    have gp: "group_push G op = ?G'" using False by (rule group_push_absent)
    have d': "distinct (map fst ?G')" using Cons.prems False by simp
    have 1: "map (\<lambda>(k, v). (k, v @ of_type k ops)) ?G'
        = map (\<lambda>(k, v). (k, v @ of_type k (op # ops))) G @ [(type op, of_type (type op) (op # ops))]"
      using False by (auto simp: of_type_def rev_image_eqI)
    have 2: "filter (\<lambda>t. t \<notin> fst ` set G) (first_seen (map type (op # ops)))
           = type op # filter (\<lambda>t. t \<notin> fst ` set ?G') (first_seen (map type ops))"
      using False by (auto intro!: filter_cong)
    have 3: "map (\<lambda>t. (t, of_type t (op # ops))) (filter (\<lambda>t. t \<notin> fst ` set ?G') (first_seen (map type ops)))
         = map (\<lambda>t. (t, of_type t ops)) (filter (\<lambda>t. t \<notin> fst ` set ?G') (first_seen (map type ops)))"
      by (auto simp: of_type_def)
    have "group_loop G (op # ops) = group_loop ?G' ops" by (simp add: gp)
    also have "\<dots> = map (\<lambda>(k, v). (k, v @ of_type k ops)) ?G' @
     map (\<lambda>t. (t, of_type t ops)) (filter (\<lambda>t. t \<notin> fst ` set ?G') (first_seen (map type ops)))"
      by (rule Cons.IH[OF d'])
    finally show ?thesis unfolding 1 2 using 3 by simp
  qed
qed

lemma groupOperationsByType_spec: "groupOperationsByType ops = groups_spec ops"
  by (simp add: groupOperationsByType_def groups_spec_def map_values_def group_loop_char comp_def)


lemma set_first_seen: "set (first_seen xs) = set xs"
  by (induction xs) auto

lemma distinct_first_seen: "distinct (first_seen xs)"
  by (induction xs) (auto simp: set_first_seen)

lemma of_type_of_type: "of_type t (of_type s ops) = (if s = t then of_type t ops else [])"
  by (induction ops) (auto simp: of_type_def)

lemma of_type_concat_groups:
  "distinct ts \<Longrightarrow>
   of_type t (concat (map (\<lambda>s. of_type s ops) ts)) = (if t \<in> set ts then of_type t ops else [])"
proof (induction ts)
  case Nil
  then show ?case by (simp add: of_type_def)
next
  case (Cons s ts)
  have app: "\<And>xs ys. of_type t (xs @ ys) = of_type t xs @ of_type t ys"
    by (simp add: of_type_def)
  from Cons show ?case by (auto simp: app of_type_of_type)
qed

lemma of_type_empty_iff: "of_type t ops = [] \<longleftrightarrow> t \<notin> type ` set ops"
  by (auto simp: of_type_def filter_empty_conv)

lemma of_type_groups_spec: "of_type t (concat (groups_spec ops)) = of_type t ops"
  using of_type_empty_iff[of t ops]
  by (auto simp: groups_spec_def of_type_concat_groups distinct_first_seen set_first_seen)

lemma count_by_type:
  "(\<And>t. of_type t xs = of_type t ys) \<Longrightarrow> mset xs = mset ys"
proof (rule multiset_eqI)
  fix x assume h: "\<And>t. of_type t xs = of_type t ys"
  have c: "\<And>zs. count (mset zs) x = count (mset (of_type (type x) zs)) x"
    by (simp add: of_type_def)
  show "count (mset xs) x = count (mset ys) x"
    using c[of xs] c[of ys] h[of "type x"] by simp
qed

lemma mset_groups_spec: "mset (concat (groups_spec ops)) = mset ops"
  by (rule count_by_type) (rule of_type_groups_spec)

lemma groups_spec_one_type:
  "g \<in> set (groups_spec ops) \<Longrightarrow> \<exists>t. type ` set g = {t}"
proof -
  assume "g \<in> set (groups_spec ops)"
  then obtain t where t: "t \<in> type ` set ops" and g: "g = of_type t ops"
    by (auto simp: groups_spec_def set_first_seen)
  have "type ` set (of_type t ops) = {t}"
    using t by (auto simp: of_type_def)
  then show ?thesis using g by blast
qed

lemma groups_spec_nonempty: "g \<in> set (groups_spec ops) \<Longrightarrow> g \<noteq> []"
  by (auto simp: groups_spec_def set_first_seen of_type_empty_iff)

lemma groups_spec_types:
  "map (\<lambda>g. type (hd g)) (groups_spec ops) = first_seen (map type ops)"
proof -
  have "\<And>t. t \<in> set (first_seen (map type ops)) \<Longrightarrow> type (hd (of_type t ops)) = t"
  proof -
    fix t assume "t \<in> set (first_seen (map type ops))"
    then have "of_type t ops \<noteq> []" by (simp add: set_first_seen of_type_empty_iff)
    then have "hd (of_type t ops) \<in> set (of_type t ops)" by simp
    then show "type (hd (of_type t ops)) = t" by (simp add: of_type_def)
  qed
  then show ?thesis by (simp add: groups_spec_def comp_def map_idI)
qed

lemma groups_spec_subset: "g \<in> set (groups_spec ops) \<Longrightarrow> set g \<subseteq> set ops"
  by (auto simp: groups_spec_def of_type_def)

lemma length_groups_spec: "length (groups_spec ops) = card (type ` set ops)"
  using distinct_card[OF distinct_first_seen, of "map type ops"]
  by (simp add: groups_spec_def set_first_seen)

lemma group_example: "groupOperationsByType [op_create_a, op_delete_missing, op_create_b] = [[op_create_a, op_create_b], [op_delete_missing]]"
  by (simp add: groupOperationsByType_def map_values_def group_push_def map_has_def map_get_def map_set_def op_create_a_def op_delete_missing_def op_create_b_def)

text \<open>
  Claim C3. With \<open>groupByType = true\<close> the groups are the specification's: one group per
  distinct type, in the order in which the types first occur, each holding the operations
  of its type in input order. So the concatenation of the groups is a permutation of the
  input that keeps the relative order within each type, every group holds operations of
  exactly one type, and the types of the groups are the types of the input in first-seen
  order. With \<open>groupByType = false\<close> there is one group, the input itself.
\<close>

theorem grouping_policy_contract:
  "grouped_of True ops = groups_spec ops
   \<and> mset (concat (grouped_of True ops)) = mset ops
   \<and> (\<forall>t. of_type t (concat (grouped_of True ops)) = of_type t ops)
   \<and> (\<forall>g \<in> set (grouped_of True ops). \<exists>t. type ` set g = {t})
   \<and> map (\<lambda>g. type (hd g)) (grouped_of True ops) = first_seen (map type ops)
   \<and> grouped_of False ops = [ops]"
  using groups_spec_one_type[of _ ops]
  by (simp add: grouped_of_def groupOperationsByType_spec mset_groups_spec
      of_type_groups_spec groups_spec_types)

theorem grouping_policy_contract_witness:
  "[op_create_a, op_create_b] \<in> set (grouped_of True [op_create_a, op_delete_missing, op_create_b])
   \<and> (\<exists>t. type ` set [op_create_a, op_create_b] = {t})"
proof -
  have g: "grouped_of True [op_create_a, op_delete_missing, op_create_b]
           = [[op_create_a, op_create_b], [op_delete_missing]]"
    by (simp add: grouped_of_def group_example)
  have "\<forall>g \<in> set (grouped_of True [op_create_a, op_delete_missing, op_create_b]).
          \<exists>t. type ` set g = {t}"
    using grouping_policy_contract [of "[op_create_a, op_delete_missing, op_create_b]"]
    by blast
  with g show ?thesis by simp
qed

text \<open>
  Claim C9. Every group that \<^verbatim>\<open>groupOperationsByType\<close> returns is non-empty and made of
  operations of the input, and there are as many groups as there are distinct types in
  the input: a type has a group only when an operation of that type occurs.
\<close>

theorem groups_never_empty:
  "(\<forall>g \<in> set (groupOperationsByType ops). g \<noteq> [] \<and> set g \<subseteq> set ops)
   \<and> length (groupOperationsByType ops) = card (type ` set ops)"
  using groups_spec_nonempty[of _ ops] groups_spec_subset[of _ ops]
  by (simp add: groupOperationsByType_spec length_groups_spec)

theorem groups_never_empty_witness:
  "[op_delete_missing] \<in> set (groupOperationsByType [op_create_a, op_delete_missing, op_create_b])
   \<and> [op_delete_missing] \<noteq> []
   \<and> set [op_delete_missing] \<subseteq> set [op_create_a, op_delete_missing, op_create_b]"
proof -
  have "\<forall>g \<in> set (groupOperationsByType [op_create_a, op_delete_missing, op_create_b]).
          g \<noteq> [] \<and> set g \<subseteq> set [op_create_a, op_delete_missing, op_create_b]"
    using groups_never_empty [of "[op_create_a, op_delete_missing, op_create_b]"]
    by blast
  then show ?thesis by (simp add: group_example)
qed

section \<open>The executor: retry\<close>

lemma exec_loop_returns:
  "of_nat a \<le> retryAttempts opts \<Longrightarrow> try_body pf op a w = (Inr v, w1) \<Longrightarrow>
   exec_loop pf op opts a lerr w = (Inr v, w1)"
  by (subst exec_loop.simps) (simp add: loop_iteration_def)

lemma exec_loop_retries:
  "of_nat a < retryAttempts opts \<Longrightarrow> try_body pf op a w = (Inl e, w1) \<Longrightarrow>
   exec_loop pf op opts a lerr w = exec_loop pf op opts (Suc a) e (sleep pf (1000 * (a + 1)) w1)"
  by (subst exec_loop.simps) (simp add: loop_iteration_def)

lemma exec_loop_gives_up:
  "of_nat a = retryAttempts opts \<Longrightarrow> try_body pf op a w = (Inl e, w1) \<Longrightarrow>
   exec_loop pf op opts a lerr w = (Inl e, w1)"
  by (subst exec_loop.simps) (simp add: loop_iteration_def)

lemma exec_loop_prefix_fails:
  assumes "of_nat k \<le> retryAttempts opts"
    and "\<forall>i<k. isl (fst (try_body pf op i (before_attempt pf op w i)))"
  shows "j \<le> k \<Longrightarrow> \<exists>lerr. exec_loop pf op opts 0 Null w
       = exec_loop pf op opts j lerr (before_attempt pf op w j)"
proof (induction j)
  case 0
  then show ?case by auto
next
  case (Suc j)
  then obtain lerr where l: "exec_loop pf op opts 0 Null w
       = exec_loop pf op opts j lerr (before_attempt pf op w j)" by auto
  from Suc.prems assms(2) have "isl (fst (try_body pf op j (before_attempt pf op w j)))" by simp
  then obtain e w1 where t: "try_body pf op j (before_attempt pf op w j) = (Inl e, w1)"
    by (cases "try_body pf op j (before_attempt pf op w j)") (auto simp: isl_def)
  from Suc.prems assms(1) have "(of_nat j :: rat) < of_nat k" by simp
  with assms(1) have lt: "of_nat j < retryAttempts opts" by linarith
  from exec_loop_retries[OF lt t] l t show ?case by auto
qed

lemma try_body_attempt:
  "type op \<noteq> Read \<Longrightarrow> try_body pf op k w = (Inr v, w') \<Longrightarrow> v = success_payload pf op k w'"
  by (cases "type op")
     (auto simp: try_body_def await_then_def split: prod.splits sum.splits option.splits if_splits)

lemma attempt_of_success_payload:
  "attempt_of (success_payload pf op k w) = Some (JNum (of_nat (k + 1)))"
  by (simp add: attempt_of_def success_payload_def obj_get_def)

lemma attempt_of_read_payload: "attempt_of (read_payload op c) = None"
  by (simp add: attempt_of_def read_payload_def op_json_def obj_get_def update_conv'
      split: option.splits)

lemma try_body_read:
  "type op = Read \<Longrightarrow> try_body pf op k w = (Inr v, w') \<Longrightarrow> attempt_of v = None"
  by (auto simp: try_body_def await_then_def attempt_of_read_payload split: prod.splits sum.splits)

text \<open>
  Claim C4, amended for \<^verbatim>\<open>read\<close>. If the attempts \<open>0 .. k-1\<close> fail and attempt \<open>k\<close>, with
  \<open>k \<le> retryAttempts\<close>, succeeds with value \<open>v\<close>, the executor returns \<open>v\<close>; for every
  type but \<^verbatim>\<open>read\<close> its \<^verbatim>\<open>attempt\<close> is \<open>k + 1\<close>, for \<^verbatim>\<open>read\<close> the value has no
  \<^verbatim>\<open>attempt\<close> property. If \<open>retryAttempts\<close> is the integer \<open>n\<close> and the attempts \<open>0 .. n\<close>
  all fail, the executor throws the error of attempt \<open>n\<close>, the \<open>(n+1)\<close>-th, in the
  world that attempt left: no further attempt is made.
\<close>

theorem executor_retry:
  "(of_nat k \<le> retryAttempts opts
      \<and> (\<forall>i<k. isl (fst (try_body pf op i (before_attempt pf op w i))))
      \<and> try_body pf op k (before_attempt pf op w k) = (Inr v, w')
    \<longrightarrow> executeFileOperation pf op opts w = (Inr v, w')
        \<and> (type op \<noteq> Read \<longrightarrow> attempt_of v = Some (JNum (of_nat (k + 1))))
        \<and> (type op = Read \<longrightarrow> attempt_of v = None))
   \<and> (of_nat n = retryAttempts opts
      \<and> (\<forall>i<n. isl (fst (try_body pf op i (before_attempt pf op w i))))
      \<and> try_body pf op n (before_attempt pf op w n) = (Inl e, w')
    \<longrightarrow> executeFileOperation pf op opts w = (Inl e, w'))"
proof (intro conjI impI)
  assume h: "of_nat k \<le> retryAttempts opts
      \<and> (\<forall>i<k. isl (fst (try_body pf op i (before_attempt pf op w i))))
      \<and> try_body pf op k (before_attempt pf op w k) = (Inr v, w')"
  then obtain lerr where "exec_loop pf op opts 0 Null w
       = exec_loop pf op opts k lerr (before_attempt pf op w k)"
    using exec_loop_prefix_fails[of k opts pf op w k] by auto
  with h show "executeFileOperation pf op opts w = (Inr v, w')"
    by (simp add: executeFileOperation_def exec_loop_returns)
  assume "type op \<noteq> Read"
  with h show "attempt_of v = Some (JNum (of_nat (k + 1)))"
    using try_body_attempt[of op pf k "before_attempt pf op w k" v w']
    by (simp add: attempt_of_success_payload del: of_nat_add of_nat_Suc)
next
  assume h: "of_nat k \<le> retryAttempts opts
      \<and> (\<forall>i<k. isl (fst (try_body pf op i (before_attempt pf op w i))))
      \<and> try_body pf op k (before_attempt pf op w k) = (Inr v, w')"
  assume "type op = Read"
  with h show "attempt_of v = None"
    using try_body_read[of op pf k "before_attempt pf op w k" v w'] by blast
next
  assume h: "of_nat n = retryAttempts opts
      \<and> (\<forall>i<n. isl (fst (try_body pf op i (before_attempt pf op w i))))
      \<and> try_body pf op n (before_attempt pf op w n) = (Inl e, w')"
  then obtain lerr where "exec_loop pf op opts 0 Null w
       = exec_loop pf op opts n lerr (before_attempt pf op w n)"
    using exec_loop_prefix_fails[of n opts pf op w n] by auto
  with h show "executeFileOperation pf op opts w = (Inl e, w')"
    by (simp add: executeFileOperation_def exec_loop_gives_up)
qed


lemma flaky_try_body:
  "try_body (flaky k) op_delete_missing a n
   = (if n < k then (Inl (Error ''EBUSY''), Suc n)
      else (Inr (success_payload (flaky k) op_delete_missing a (Suc n)), Suc n))"
  by (simp add: try_body_def await_then_def flaky_def op_delete_missing_def)

lemma flaky_before_attempt: "before_attempt (flaky k) op_delete_missing 0 i = i"
  by (induction i) (simp_all add: flaky_try_body, simp add: flaky_def)

theorem executor_retry_witness:
  "executeFileOperation (flaky 2) op_delete_missing (default_options\<lparr>retryAttempts := 3\<rparr>) 0
     = (Inr (success_payload (flaky 2) op_delete_missing 2 3), 3)
   \<and> attempt_of (success_payload (flaky 2) op_delete_missing 2 3) = Some (JNum 3)
   \<and> executeFileOperation (flaky 9) op_delete_missing (default_options\<lparr>retryAttempts := 3\<rparr>) 0
     = (Inl (Error ''EBUSY''), 4)"
proof -
  let ?opts = "default_options\<lparr>retryAttempts := 3\<rparr>"
  have r: "retryAttempts ?opts = 3" by (simp add: default_options_def)
  have t: "type op_delete_missing \<noteq> Read" by (simp add: op_delete_missing_def)
  have a1: "of_nat 2 \<le> retryAttempts ?opts" using r by simp
  have a2: "\<forall>i<2. isl (fst (try_body (flaky 2) op_delete_missing i
                 (before_attempt (flaky 2) op_delete_missing 0 i)))"
    by (simp add: flaky_before_attempt flaky_try_body)
  have a3: "try_body (flaky 2) op_delete_missing 2 (before_attempt (flaky 2) op_delete_missing 0 2)
            = (Inr (success_payload (flaky 2) op_delete_missing 2 3), 3)"
    by (simp add: flaky_before_attempt flaky_try_body)
  have b1: "of_nat 3 = retryAttempts ?opts" using r by simp
  have b2: "\<forall>i<3. isl (fst (try_body (flaky 9) op_delete_missing i
                 (before_attempt (flaky 9) op_delete_missing 0 i)))"
    by (simp add: flaky_before_attempt flaky_try_body)
  have b3: "try_body (flaky 9) op_delete_missing 3 (before_attempt (flaky 9) op_delete_missing 0 3)
            = (Inl (Error ''EBUSY''), 4)"
    by (simp add: flaky_before_attempt flaky_try_body)
  from executor_retry[of 2 ?opts "flaky 2" op_delete_missing 0
      "success_payload (flaky 2) op_delete_missing 2 3" 3 0 undefined] a1 a2 a3 t
  have c1: "executeFileOperation (flaky 2) op_delete_missing ?opts 0
     = (Inr (success_payload (flaky 2) op_delete_missing 2 3), 3)
     \<and> attempt_of (success_payload (flaky 2) op_delete_missing 2 3) = Some (JNum 3)"
    by simp
  from executor_retry[of 0 ?opts "flaky 9" op_delete_missing 0 undefined 4 3 "Error ''EBUSY''"]
    b1 b2 b3
  have c2: "executeFileOperation (flaky 9) op_delete_missing ?opts 0 = (Inl (Error ''EBUSY''), 4)"
    by simp
  from c1 c2 show ?thesis by simp
qed

text \<open>
  Claim C4 as stated fails for \<^verbatim>\<open>read\<close>: a read that succeeds at once returns the
  operation with its content, and that value has no \<^verbatim>\<open>attempt\<close> equal to 1.
\<close>

theorem read_returns_no_attempt:
  "fst (executeFileOperation toy op_read_b default_options toy_start)
     = Inr (read_payload op_read_b ''hi'')
   \<and> attempt_of (read_payload op_read_b ''hi'') \<noteq> Some (JNum 1)"
proof -
  have "try_body toy op_read_b 0 toy_start
        = (Inr (read_payload op_read_b ''hi''), toy_start\<lparr>calls := [ReadFile ''/tmp/b.txt'' Utf8]\<rparr>)"
    by (simp add: try_body_def await_then_def toy_def toy_fs_def toy_effect_def toy_exists_def
        toy_read_def toy_start_def op_read_b_def)
  then have "executeFileOperation toy op_read_b default_options toy_start
        = (Inr (read_payload op_read_b ''hi''), toy_start\<lparr>calls := [ReadFile ''/tmp/b.txt'' Utf8]\<rparr>)"
    by (simp add: executeFileOperation_def exec_loop_returns default_options_def)
  then show ?thesis by (simp add: attempt_of_read_payload)
qed

section \<open>The coordinator: invariants of a run\<close>

lemma success_records_append:
  "success_records (xs @ ys) = success_records xs @ success_records ys"
  by (induction xs rule: success_records.induct) simp_all

lemma failure_records_append:
  "failure_records (xs @ ys) = failure_records xs @ failure_records ys"
  by (induction xs rule: failure_records.induct) simp_all

lemma length_records:
  "length (success_records xs) + length (failure_records xs) = length xs"
  by (induction xs rule: success_records.induct) simp_all

lemma length_success_records: "length (success_records xs) = length (filter (\<lambda>x. \<not> isl (snd x)) xs)"
  by (induction xs rule: success_records.induct) simp_all

lemma length_failure_records: "length (failure_records xs) = length (filter (\<lambda>x. isl (snd x)) xs)"
  by (induction xs rule: success_records.induct) simp_all

subsection \<open>Invariants of a run\<close>

lemma t_op_on_failure [simp]: "t_op (on_failure opts op a e) = op"
  by (simp add: on_failure_def)

lemma t_op_enter_loop [simp]: "t_op (enter_loop opts op a le) = op"
  by (simp add: enter_loop_def split: sum.splits prod.splits)

lemma t_op_launch [simp]: "t_op (launch opts op) = op"
  by (simp add: launch_def)

lemma map_t_op_launch [simp]: "map (t_op \<circ> launch opts) xs = xs"
  by (induction xs) simp_all

lemma await_all_invariant:
  assumes "P st"
    and "\<And>s i. P s \<Longrightarrow> i < length (active s) \<Longrightarrow>
           (watching \<and> rejected s \<longrightarrow> is_rejecting (active s ! i)) \<Longrightarrow>
           P (resume_task pf opts limit i s)"
  shows "P (snd (await_all pf opts limit watching sched st))"
  using assms
proof (induction pf opts limit watching sched st rule: await_all.induct)
  case (1 pf opts limit watching sched st)
  note step = "1.prems"(2)
  note unfold = await_all.simps[of pf opts limit watching sched st]
  show ?case
  proof (cases "active st = []")
    case True
    with 1 show ?thesis unfolding unfold by simp
  next
    case False
    show ?thesis
    proof (cases "watching \<and> rejected st
              \<and> (next_choice sched = Resume \<or> \<not> is_rejecting (active st ! chosen sched st))")
      case True
      with False "1.prems"(1) show ?thesis unfolding unfold by simp
    next
      case F2: False
      have "chosen sched st < length (active st)" using False by (rule chosen_valid)
      moreover have "watching \<and> rejected st \<longrightarrow> is_rejecting (active st ! chosen sched st)"
        using F2 by blast
      ultimately have "P (resume_task pf opts limit (chosen sched st) st)"
        using step "1.prems"(1) by blast
      from "1.IH"[OF False F2 this step]
      show ?thesis using False F2 unfolding unfold by auto
    qed
  qed
qed

lemma await_all_exit:
  "active (snd (await_all pf opts limit watching sched st)) = []
   \<or> (watching \<and> rejected (snd (await_all pf opts limit watching sched st)))"
proof (induction pf opts limit watching sched st rule: await_all.induct)
  case (1 pf opts limit watching sched st)
  note unfold = await_all.simps[of pf opts limit watching sched st]
  show ?case
  proof (cases "active st = []")
    case True
    then show ?thesis unfolding unfold by simp
  next
    case False
    show ?thesis
    proof (cases "watching \<and> rejected st
              \<and> (next_choice sched = Resume \<or> \<not> is_rejecting (active st ! chosen sched st))")
      case True
      with False show ?thesis unfolding unfold by simp
    next
      case F2: False
      from "1.IH"[OF False F2]
      show ?thesis using False F2 unfolding unfold by auto
    qed
  qed
qed

lemma run_groups_invariant:
  assumes "P st" and "\<not> (rejected st \<and> stopOnError opts)"
    and "\<And>s i. P s \<Longrightarrow> i < length (active s) \<Longrightarrow>
           (rejected s \<longrightarrow> is_rejecting (active s ! i)) \<Longrightarrow>
           P (resume_task pf opts limit i s)"
    and "\<And>s grp. P s \<Longrightarrow> \<not> (rejected s \<and> stopOnError opts) \<Longrightarrow> P (submit limit opts grp s)"
  shows "P (snd (run_groups pf opts limit sched groups st))"
  using assms(1,2)
proof (induction groups arbitrary: sched st)
  case Nil
  then show ?case by simp
next
  case (Cons grp rest)
  obtain sched1 st1 where a: "await_all pf opts limit True sched (submit limit opts grp st) = (sched1, st1)"
    by (cases "await_all pf opts limit True sched (submit limit opts grp st)")
  have "P (submit limit opts grp st)" using Cons.prems assms(4) by blast
  from await_all_invariant[of P, OF this, of True pf opts limit sched] assms(3) a
  have p1: "P st1" by simp
  show ?case
  proof (cases "rejected st1 \<and> stopOnError opts")
    case True
    then show ?thesis using a p1 by simp
  next
    case False
    then show ?thesis using a Cons.IH[OF p1 False, of sched1] by auto
  qed
qed

lemma resume_task_cases:
  obtains (waits) t1 w1 where
      "task_step pf opts (active st ! i) (world st) = (Waits t1, w1)"
      "resume_task pf opts limit i st = st\<lparr>world := w1, active := (active st)[i := t1]\<rparr>"
  | (returned) v w1 where
      "task_step pf opts (active st ! i) (world st) = (Returns v, w1)"
      "resume_task pf opts limit i st =
         start_queued limit opts
           (st\<lparr>world := w1, active := take i (active st) @ drop (Suc i) (active st),
               results_arr := results_arr st @ [success_record (t_op (active st ! i)) v],
               settled := settled st @ [(t_op (active st ! i), Inr v)]\<rparr>)"
  | (thrown) e w1 where
      "task_step pf opts (active st ! i) (world st) = (Throws e, w1)"
      "resume_task pf opts limit i st =
         start_queued limit opts
           (st\<lparr>world := w1, active := take i (active st) @ drop (Suc i) (active st),
               errors_arr := errors_arr st @ [failure_record (t_op (active st ! i)) e],
               rejected := (rejected st \<or> stopOnError opts),
               settled := settled st @ [(t_op (active st ! i), Inl e)]\<rparr>)"
proof -
  obtain r w1 where it: "task_step pf opts (active st ! i) (world st) = (r, w1)"
    by (cases "task_step pf opts (active st ! i) (world st)")
  show thesis
  proof (cases r)
    case (Returns v)
    with it show ?thesis by (intro returned[of v w1]) (simp_all add: resume_task_def Let_def)
  next
    case (Throws e)
    with it show ?thesis by (intro thrown[of e w1]) (simp_all add: resume_task_def Let_def)
  next
    case (Waits t1)
    with it show ?thesis by (intro waits[of t1 w1]) (simp_all add: resume_task_def Let_def)
  qed
qed

lemma records_ok_resume:
  "records_ok st \<Longrightarrow> records_ok (resume_task pf opts limit i st)"
  by (cases rule: resume_task_cases[where pf = pf and st = st and i = i and opts = opts and limit = limit])
     (simp_all add: records_ok_def start_queued_def success_records_append failure_records_append)

lemma records_ok_submit: "records_ok st \<Longrightarrow> records_ok (submit limit opts grp st)"
  by (simp add: records_ok_def submit_def start_queued_def)

lemma records_ok_idle: "records_ok (idle w)"
  by (simp add: records_ok_def idle_def)

lemma records_ok_run:
  "records_ok (snd (coordinate pf opts limit sched ops w))"
  unfolding coordinate_def
proof (rule run_groups_invariant[where P = records_ok])
  show "records_ok (idle w)" by (rule records_ok_idle)
  show "\<not> (rejected (idle w) \<and> stopOnError opts)" by (simp add: idle_def)
qed (simp_all add: records_ok_resume records_ok_submit)

lemma mset_remove_nth:
  "i < length xs \<Longrightarrow> mset (take i xs @ drop (Suc i) xs) + {#xs ! i#} = mset xs"
  by (metis add_mset_add_single id_take_nth_drop mset.simps(2) mset_append union_mset_add_mset_right)

lemma submitted_start_queued: "mset (submitted (start_queued limit opts st)) = mset (submitted st)"
proof -
  have "mset (queue st) = mset (take (limit - length (active st)) (queue st))
      + mset (drop (limit - length (active st)) (queue st))"
    by (metis append_take_drop_id mset_append)
  then show ?thesis
    by (simp add: submitted_def start_queued_def)
qed

lemma submitted_resume:
  assumes "i < length (active st)"
  shows "mset (submitted (resume_task pf opts limit i st)) = mset (submitted st)"
proof (cases rule: resume_task_cases[where pf = pf and st = st and i = i and opts = opts and limit = limit])
  case (waits t1 w1)
  have "t_op t1 = t_op (active st ! i)" using task_step_Waits[OF waits(1)] by simp
  then have "map t_op ((active st)[i := t1]) = map t_op (active st)"
    using assms by (simp add: map_update list_update_same_conv)
  then show ?thesis using waits by (simp add: submitted_def)
next
  case (returned v w1)
  have "mset (map t_op (take i (active st) @ drop (Suc i) (active st))) + {#t_op (active st ! i)#}
      = mset (map t_op (active st))"
    using mset_remove_nth[OF assms] by (metis image_mset_single image_mset_union mset_map)
  then show ?thesis using returned
    by (simp add: submitted_start_queued) (simp add: submitted_def)
next
  case (thrown e w1)
  have "mset (map t_op (take i (active st) @ drop (Suc i) (active st))) + {#t_op (active st ! i)#}
      = mset (map t_op (active st))"
    using mset_remove_nth[OF assms] by (metis image_mset_single image_mset_union mset_map)
  then show ?thesis using thrown
    by (simp add: submitted_start_queued) (simp add: submitted_def)
qed

lemma submitted_submit: "mset (submitted (submit limit opts grp st)) = mset (submitted st) + mset grp"
  by (simp add: submit_def submitted_start_queued) (simp add: submitted_def)

lemma submitted_await_all:
  "mset (submitted (snd (await_all pf opts limit watching sched st))) = mset (submitted st)"
  by (rule await_all_invariant[where P = "\<lambda>s. mset (submitted s) = mset (submitted st)"])
     (simp_all add: submitted_resume)

lemma run_groups_prefix:
  "\<exists>k\<le>length groups.
     mset (submitted (snd (run_groups pf opts limit sched groups st)))
       = mset (submitted st) + mset (concat (take k groups))"
proof (induction groups arbitrary: sched st)
  case Nil
  then show ?case by simp
next
  case (Cons grp rest)
  obtain sched1 st1 where a: "await_all pf opts limit True sched (submit limit opts grp st) = (sched1, st1)"
    by (cases "await_all pf opts limit True sched (submit limit opts grp st)")
  have s1: "mset (submitted st1) = mset (submitted st) + mset grp"
    using submitted_await_all[of pf opts limit True sched "submit limit opts grp st"] a
    by (simp add: submitted_submit)
  show ?case
  proof (cases "rejected st1 \<and> stopOnError opts")
    case True
    have "mset (submitted st1) = mset (submitted st) + mset (concat (take 1 (grp # rest)))"
      using s1 by simp
    moreover have "run_groups pf opts limit sched (grp # rest) st = (sched1, st1)"
      using a True by simp
    ultimately show ?thesis by (intro exI[of _ 1]) simp
  next
    case False
    from Cons.IH[of sched1 st1] obtain k where k: "k \<le> length rest"
      "mset (submitted (snd (run_groups pf opts limit sched1 rest st1)))
         = mset (submitted st1) + mset (concat (take k rest))" by blast
    have run: "run_groups pf opts limit sched (grp # rest) st = run_groups pf opts limit sched1 rest st1"
      using a False by auto
    have "mset (submitted st1) + mset (concat (take k rest))
        = mset (submitted st) + mset (concat (take (Suc k) (grp # rest)))"
      unfolding s1 by simp
    with k show ?thesis unfolding run by (intro exI[of _ "Suc k"]) simp
  qed
qed

lemma mset_concat_take: "mset (concat (take k xss)) \<subseteq># mset (concat xss)"
proof -
  have "mset (concat xss) = mset (concat (take k xss)) + mset (concat (drop k xss))"
    by (metis append_take_drop_id concat_append mset_append)
  then show ?thesis by simp
qed

lemma length_grouped_of: "length (concat (grouped_of b ops)) = length ops"
proof -
  have "mset (concat (grouped_of b ops)) = mset ops"
    by (simp add: grouped_of_def groupOperationsByType_spec mset_groups_spec)
  then show ?thesis by (metis size_mset)
qed

lemma started_le_total: "started (snd (coordinate pf opts limit sched ops w)) \<le> length ops"
proof -
  let ?st = "snd (coordinate pf opts limit sched ops w)"
  let ?groups = "grouped_of (groupByType opts) ops"
  obtain k where "mset (submitted ?st) = mset (submitted (idle w)) + mset (concat (take k ?groups))"
    using run_groups_prefix[of ?groups pf opts limit sched "idle w"]
    by (auto simp: coordinate_def)
  then have "mset (submitted ?st) = mset (concat (take k ?groups))"
    by (simp add: submitted_def idle_def)
  then have "mset (submitted ?st) \<subseteq># mset (concat ?groups)"
    by (simp add: mset_concat_take)
  then have "length (submitted ?st) \<le> length (concat ?groups)"
    by (metis size_mset size_mset_mono)
  then show ?thesis by (simp add: started_def submitted_def length_grouped_of)
qed

lemma rejection_ok_resume:
  "rejection_ok opts st \<Longrightarrow> rejection_ok opts (resume_task pf opts limit i st)"
  by (cases rule: resume_task_cases[where pf = pf and st = st and i = i and opts = opts and limit = limit])
     (auto simp: rejection_ok_def start_queued_def)

lemma rejection_ok_submit:
  "rejection_ok opts st \<Longrightarrow> \<not> (rejected st \<and> stopOnError opts) \<Longrightarrow>
   rejection_ok opts (submit limit opts grp st)"
proof (cases "stopOnError opts")
  case True
  assume "rejection_ok opts st" and "\<not> (rejected st \<and> stopOnError opts)"
  with True have "\<not> (\<exists>x \<in> set (settled st). isl (snd x))"
    unfolding rejection_ok_def by simp
  then show ?thesis using True unfolding rejection_ok_def
    by (simp add: submit_def start_queued_def)
next
  case False
  then show ?thesis unfolding rejection_ok_def by (simp add: submit_def start_queued_def)
qed

lemma filled_start_queued: "filled limit (start_queued limit opts st)"
  by (auto simp: filled_def start_queued_def)

lemma filled_resume: "filled limit st \<Longrightarrow> filled limit (resume_task pf opts limit i st)"
  by (cases rule: resume_task_cases[where pf = pf and st = st and i = i and opts = opts and limit = limit])
     (simp_all add: filled_start_queued, simp add: filled_def)

lemma filled_submit: "filled limit (submit limit opts grp st)"
  by (simp add: submit_def filled_start_queued)

lemma filled_await_all:
  "filled limit st \<Longrightarrow> filled limit (snd (await_all pf opts limit watching sched st))"
  by (rule await_all_invariant[where P = "filled limit"]) (simp_all add: filled_resume)

lemma rejection_ok_await_all:
  "rejection_ok opts st \<Longrightarrow> rejection_ok opts (snd (await_all pf opts limit watching sched st))"
  by (rule await_all_invariant[where P = "rejection_ok opts"]) (simp_all add: rejection_ok_resume)

text \<open>Without stopOnError every group is awaited to its end.\<close>

lemma run_groups_all_settled:
  assumes "\<not> stopOnError opts" and "0 < limit"
  shows "rejection_ok opts st \<Longrightarrow> active st = [] \<Longrightarrow> queue st = [] \<Longrightarrow>
     active (snd (run_groups pf opts limit sched groups st)) = []
     \<and> queue (snd (run_groups pf opts limit sched groups st)) = []
     \<and> mset (submitted (snd (run_groups pf opts limit sched groups st)))
         = mset (submitted st) + mset (concat groups)"
proof (induction groups arbitrary: sched st)
  case Nil
  then show ?case by simp
next
  case (Cons grp rest)
  obtain sched1 st1 where a: "await_all pf opts limit True sched (submit limit opts grp st) = (sched1, st1)"
    by (cases "await_all pf opts limit True sched (submit limit opts grp st)")
  have s1: "mset (submitted st1) = mset (submitted st) + mset grp"
    using submitted_await_all[of pf opts limit True sched "submit limit opts grp st"] a
    by (simp add: submitted_submit)
  have r0: "rejection_ok opts (submit limit opts grp st)"
    using Cons.prems(1) assms(1) by (simp add: rejection_ok_submit)
  have r1: "rejection_ok opts st1"
    using rejection_ok_await_all[OF r0, where pf = pf and limit = limit and watching = True and sched = sched] a by simp
  then have nr: "\<not> rejected st1" using assms(1) by (simp add: rejection_ok_def)
  have act: "active st1 = []"
    using await_all_exit[of pf opts limit True sched "submit limit opts grp st"] a nr by simp
  have f0: "filled limit (submit limit opts grp st)" by (rule filled_submit)
  have "filled limit st1"
    using filled_await_all[OF f0, where pf = pf and opts = opts and watching = True and sched = sched] a by simp
  with act assms(2) have q: "queue st1 = []" by (auto simp: filled_def)
  have run: "run_groups pf opts limit sched (grp # rest) st = run_groups pf opts limit sched1 rest st1"
    using a nr by simp
  have "mset (submitted st1) + mset (concat rest) = mset (submitted st) + mset (concat (grp # rest))"
    unfolding s1 by simp
  with Cons.IH[OF r1 act q, of sched1] show ?case unfolding run by simp
qed

lemma in_flight_start_queued:
  "set (map t_op (active (start_queued limit opts st))) \<union> set (queue (start_queued limit opts st))
   = set (map t_op (active st)) \<union> set (queue st)"
proof -
  let ?k = "limit - length (active st)"
  have "set (queue st) = set (take ?k (queue st)) \<union> set (drop ?k (queue st))"
    by (metis append_take_drop_id set_append)
  then show ?thesis
    by (simp add: start_queued_def Un_assoc)
qed

lemma within_group_start_queued:
  "within_group grp (start_queued limit opts st) = within_group grp st"
  unfolding within_group_def in_flight_start_queued
  by (simp add: start_queued_def)

lemma within_group_resume:
  assumes "i < length (active st)" and "within_group grp st"
  shows "within_group grp (resume_task pf opts limit i st)"
proof -
  have mem: "t_op (active st ! i) \<in> set grp"
    using assms by (auto simp: within_group_def)
  have sub: "set (take i (active st) @ drop (Suc i) (active st)) \<subseteq> set (active st)"
    by (metis append_take_drop_id set_append set_drop_subset Un_mono order_refl set_take_subset
        Un_subset_iff)
  show ?thesis
  proof (cases rule: resume_task_cases[where pf = pf and st = st and i = i and opts = opts and limit = limit])
    case (waits t1 w1)
    have "t_op t1 = t_op (active st ! i)" using task_step_Waits[OF waits(1)] by simp
    then have "map t_op ((active st)[i := t1]) = map t_op (active st)"
      using assms(1) by (simp add: map_update list_update_same_conv)
    then show ?thesis using waits assms(2) by (simp add: within_group_def del: set_map)
  next
    case (returned v w1)
    show ?thesis unfolding returned(2) within_group_start_queued
      using assms(2) sub mem by (auto simp: within_group_def)
  next
    case (thrown e w1)
    show ?thesis unfolding thrown(2) within_group_start_queued
      using assms(2) sub mem by (auto simp: within_group_def)
  qed
qed

lemma within_group_await_all:
  "within_group grp st \<Longrightarrow> within_group grp (snd (await_all pf opts limit watching sched st))"
  by (rule await_all_invariant[where P = "within_group grp"]) (simp_all add: within_group_resume)

text \<open>
  With stopOnError, from a state with nothing in flight and no failure recorded: either
  every group is awaited to its end without a failure, or the loop is left at a group
  \<open>g\<close>, every failure recorded is of an operation of \<open>g\<close>, and the groups after \<open>g\<close> were
  never submitted.
\<close>

lemma run_groups_stop:
  assumes "stopOnError opts" and "0 < limit"
  shows "rejection_ok opts st \<Longrightarrow> \<not> rejected st \<Longrightarrow> active st = [] \<Longrightarrow> queue st = [] \<Longrightarrow>
     (\<not> rejected (snd (run_groups pf opts limit sched groups st))
        \<and> active (snd (run_groups pf opts limit sched groups st)) = []
        \<and> queue (snd (run_groups pf opts limit sched groups st)) = []
        \<and> mset (submitted (snd (run_groups pf opts limit sched groups st)))
            = mset (submitted st) + mset (concat groups))
     \<or> (\<exists>pre g post. groups = pre @ g # post
        \<and> rejected (snd (run_groups pf opts limit sched groups st))
        \<and> mset (submitted (snd (run_groups pf opts limit sched groups st)))
            = mset (submitted st) + mset (concat pre) + mset g
        \<and> (\<forall>x \<in> set (settled (snd (run_groups pf opts limit sched groups st))).
              isl (snd x) \<longrightarrow> fst x \<in> set g))"
proof (induction groups arbitrary: sched st)
  case Nil
  then show ?case by simp
next
  case (Cons grp rest)
  obtain sched1 st1 where a: "await_all pf opts limit True sched (submit limit opts grp st) = (sched1, st1)"
    by (cases "await_all pf opts limit True sched (submit limit opts grp st)")
  have s1: "mset (submitted st1) = mset (submitted st) + mset grp"
    using submitted_await_all[of pf opts limit True sched "submit limit opts grp st"] a
    by (simp add: submitted_submit)
  have nofail: "\<not> (\<exists>x \<in> set (settled st). isl (snd x))"
    using Cons.prems(1,2) assms(1) unfolding rejection_ok_def by simp
  have "within_group grp (st\<lparr>queue := queue st @ grp, rejected := False\<rparr>)"
    using nofail Cons.prems(3,4) by (simp add: within_group_def)
  then have "within_group grp (submit limit opts grp st)"
    by (simp add: submit_def within_group_start_queued)
  from within_group_await_all[OF this, where pf = pf and opts = opts and limit = limit and watching = True and sched = sched] a
  have wg: "within_group grp st1" by simp
  have r0: "rejection_ok opts (submit limit opts grp st)"
    using Cons.prems(1,2) by (simp add: rejection_ok_submit)
  have r1: "rejection_ok opts st1"
    using rejection_ok_await_all[OF r0, where pf = pf and limit = limit and watching = True and sched = sched] a by simp
  show ?case
  proof (cases "rejected st1")
    case True
    then have run: "run_groups pf opts limit sched (grp # rest) st = (sched1, st1)"
      using a assms(1) by simp
    have "grp # rest = [] @ grp # rest" by simp
    moreover have "mset (submitted st1) = mset (submitted st) + mset (concat []) + mset grp"
      using s1 by simp
    moreover have "\<forall>x \<in> set (settled st1). isl (snd x) \<longrightarrow> fst x \<in> set grp"
      using wg by (simp add: within_group_def)
    ultimately show ?thesis unfolding run using True by (intro disjI2) (metis snd_conv)
  next
    case False
    then have run: "run_groups pf opts limit sched (grp # rest) st
        = run_groups pf opts limit sched1 rest st1"
      using a by simp
    have act: "active st1 = []"
      using await_all_exit[of pf opts limit True sched "submit limit opts grp st"] a False by simp
    have f0: "filled limit (submit limit opts grp st)" by (rule filled_submit)
    have "filled limit st1"
      using filled_await_all[OF f0, where pf = pf and opts = opts and watching = True and sched = sched] a by simp
    with act assms(2) have q: "queue st1 = []" by (auto simp: filled_def)
    from Cons.IH[OF r1 False act q, of sched1]
    show ?thesis
    proof
      assume h: "\<not> rejected (snd (run_groups pf opts limit sched1 rest st1))
        \<and> active (snd (run_groups pf opts limit sched1 rest st1)) = []
        \<and> queue (snd (run_groups pf opts limit sched1 rest st1)) = []
        \<and> mset (submitted (snd (run_groups pf opts limit sched1 rest st1)))
            = mset (submitted st1) + mset (concat rest)"
      have "mset (submitted st1) + mset (concat rest)
          = mset (submitted st) + mset (concat (grp # rest))"
        unfolding s1 by simp
      with h show ?thesis unfolding run by (intro disjI1) simp
    next
      assume "\<exists>pre g post. rest = pre @ g # post
        \<and> rejected (snd (run_groups pf opts limit sched1 rest st1))
        \<and> mset (submitted (snd (run_groups pf opts limit sched1 rest st1)))
            = mset (submitted st1) + mset (concat pre) + mset g
        \<and> (\<forall>x \<in> set (settled (snd (run_groups pf opts limit sched1 rest st1))).
              isl (snd x) \<longrightarrow> fst x \<in> set g)"
      then obtain pre g post where h: "rest = pre @ g # post"
        "rejected (snd (run_groups pf opts limit sched1 rest st1))"
        "mset (submitted (snd (run_groups pf opts limit sched1 rest st1)))
            = mset (submitted st1) + mset (concat pre) + mset g"
        "\<forall>x \<in> set (settled (snd (run_groups pf opts limit sched1 rest st1))).
              isl (snd x) \<longrightarrow> fst x \<in> set g"
        by blast
      have 1: "grp # rest = (grp # pre) @ g # post" using h(1) by simp
      have 2: "mset (submitted st1) + mset (concat pre) + mset g
          = mset (submitted st) + mset (concat (grp # pre)) + mset g"
        unfolding s1 by simp
      show ?thesis unfolding run
        apply (rule disjI2)
        apply (rule exI[of _ "grp # pre"], rule exI[of _ g], rule exI[of _ post])
        using 1 2 h(2,3,4) by simp
    qed
  qed
qed

subsection \<open>What is recorded after a failure\<close>

lemma task_step_rejecting:
  "t_wait t = Rejecting e \<Longrightarrow> task_step pf opts t w = (Throws e, w)"
  by (simp add: task_step_def)

lemma is_rejecting_iff: "is_rejecting t \<longleftrightarrow> (\<exists>e. t_wait t = Rejecting e)"
  by (simp add: is_rejecting_def split: waiting.splits)

lemma launched_ok_start_queued:
  "launched_ok opts st \<Longrightarrow> launched_ok opts (start_queued limit opts st)"
  by (auto simp: launched_ok_def start_queued_def)

lemma set_remove_nth_subset: "set (take i xs @ drop (Suc i) xs) \<subseteq> set xs"
  by (metis append_take_drop_id set_append set_drop_subset Un_mono order_refl set_take_subset
      Un_subset_iff)

lemma launched_ok_resume:
  assumes "launched_ok opts st"
  shows "launched_ok opts (resume_task pf opts limit i st)"
proof (cases rule: resume_task_cases[where pf = pf and st = st and i = i and opts = opts and limit = limit])
  case (waits t1 w1)
  have "\<not> is_rejecting t1" using task_step_Waits[OF waits(1)] by simp
  moreover have "set ((active st)[i := t1]) \<subseteq> insert t1 (set (active st))"
    by (rule set_update_subset_insert)
  ultimately show ?thesis using assms unfolding waits(2) launched_ok_def by auto
next
  case (returned v w1)
  have "launched_ok opts (st\<lparr>world := w1, active := take i (active st) @ drop (Suc i) (active st),
               results_arr := results_arr st @ [success_record (t_op (active st ! i)) v],
               settled := settled st @ [(t_op (active st ! i), Inr v)]\<rparr>)"
    using assms set_remove_nth_subset[of i "active st"] unfolding launched_ok_def by auto
  then show ?thesis unfolding returned(2) by (rule launched_ok_start_queued)
next
  case (thrown e w1)
  have "launched_ok opts (st\<lparr>world := w1, active := take i (active st) @ drop (Suc i) (active st),
               errors_arr := errors_arr st @ [failure_record (t_op (active st ! i)) e],
               rejected := (rejected st \<or> stopOnError opts),
               settled := settled st @ [(t_op (active st ! i), Inl e)]\<rparr>)"
    using assms set_remove_nth_subset[of i "active st"] unfolding launched_ok_def by auto
  then show ?thesis unfolding thrown(2) by (rule launched_ok_start_queued)
qed

lemma launched_ok_submit: "launched_ok opts st \<Longrightarrow> launched_ok opts (submit limit opts grp st)"
  unfolding submit_def by (rule launched_ok_start_queued) (simp add: launched_ok_def)

lemma sync_no_failure:
  "\<not> (\<exists>x \<in> set xs. isl (snd x)) \<Longrightarrow> sync_after_failure opts (xs @ [y])"
  by (induction xs) (simp_all)

lemma sync_append:
  "sync_after_failure opts xs \<Longrightarrow> launch_failure opts y \<Longrightarrow> sync_after_failure opts (xs @ [y])"
  by (induction xs) (simp_all add: launch_failure_def split: sum.splits)

lemma sync_split:
  "sync_after_failure opts xs \<Longrightarrow> \<exists>x \<in> set xs. isl (snd x) \<Longrightarrow>
   \<exists>ss x rest. xs = ss @ x # rest \<and> (\<forall>s \<in> set ss. \<not> isl (snd s)) \<and> isl (snd x)
     \<and> list_all (launch_failure opts) rest"
proof (induction xs)
  case Nil
  then show ?case by simp
next
  case (Cons a xs)
  show ?case
  proof (cases "isl (snd a)")
    case True
    with Cons.prems(1) have "a # xs = [] @ a # xs \<and> (\<forall>s \<in> set []. \<not> isl (snd s)) \<and> isl (snd a)
        \<and> list_all (launch_failure opts) xs" by simp
    then show ?thesis by blast
  next
    case False
    with Cons.prems have "sync_after_failure opts xs" and "\<exists>x \<in> set xs. isl (snd x)" by auto
    from Cons.IH[OF this] obtain ss x rest where h: "xs = ss @ x # rest"
      "\<forall>s \<in> set ss. \<not> isl (snd s)" "isl (snd x)" "list_all (launch_failure opts) rest" by blast
    have "a # xs = (a # ss) @ x # rest \<and> (\<forall>s \<in> set (a # ss). \<not> isl (snd s)) \<and> isl (snd x)
        \<and> list_all (launch_failure opts) rest"
      using h False by simp
    then show ?thesis by blast
  qed
qed

text \<open>
  The invariant of a watched run under \<^verbatim>\<open>stopOnError\<close>: once a failure is recorded, the
  only calls that still settle before the handler goes on are those that threw before
  their first \<^verbatim>\<open>await\<close>.
\<close>

definition stop_ok :: "BatchOptions \<Rightarrow> 'w coord \<Rightarrow> bool" where
  "stop_ok opts st \<longleftrightarrow>
     launched_ok opts st \<and> rejection_ok opts st \<and> sync_after_failure opts (settled st)"

lemma stop_ok_resume:
  assumes "stopOnError opts" and "stop_ok opts st" and "i < length (active st)"
    and "rejected st \<longrightarrow> is_rejecting (active st ! i)"
  shows "stop_ok opts (resume_task pf opts limit i st)"
proof -
  let ?t = "active st ! i"
  have lo: "launched_ok opts (resume_task pf opts limit i st)"
    using assms(2) by (simp add: stop_ok_def launched_ok_resume)
  have ro: "rejection_ok opts (resume_task pf opts limit i st)"
    using assms(2) by (simp add: stop_ok_def rejection_ok_resume)
  have nofail: "\<not> rejected st \<Longrightarrow> \<not> (\<exists>x \<in> set (settled st). isl (snd x))"
    using assms(1,2) by (simp add: stop_ok_def rejection_ok_def)
  have sy: "sync_after_failure opts (settled st)" using assms(2) by (simp add: stop_ok_def)
  have "sync_after_failure opts (settled (resume_task pf opts limit i st))"
  proof (cases rule: resume_task_cases[where pf = pf and st = st and i = i and opts = opts and limit = limit])
    case (waits t1 w1)
    then show ?thesis using sy by simp
  next
    case (returned v w1)
    have "\<not> rejected st"
    proof
      assume "rejected st"
      with assms(4) obtain e where "t_wait ?t = Rejecting e" by (auto simp: is_rejecting_iff)
      from task_step_rejecting[OF this, of pf opts "world st"] returned(1) show False by simp
    qed
    from sync_no_failure[OF nofail[OF this], of opts "(t_op ?t, Inr v)"]
    show ?thesis unfolding returned(2) by (simp add: start_queued_def)
  next
    case (thrown e w1)
    show ?thesis
    proof (cases "rejected st")
      case False
      from sync_no_failure[OF nofail[OF False], of opts "(t_op ?t, Inl e)"]
      show ?thesis unfolding thrown(2) by (simp add: start_queued_def)
    next
      case True
      with assms(4) obtain e1 where w: "t_wait ?t = Rejecting e1" by (auto simp: is_rejecting_iff)
      from task_step_rejecting[OF this, of pf opts "world st"] thrown(1) have e: "e1 = e" by simp
      have "?t \<in> set (active st)" using assms(3) by simp
      moreover have "is_rejecting ?t" using w by (simp add: is_rejecting_iff)
      ultimately have "?t = launch opts (t_op ?t)"
        using assms(2) by (simp add: stop_ok_def launched_ok_def)
      with w e have "launch_failure opts (t_op ?t, Inl e)"
        by (simp add: launch_failure_def)
      from sync_append[OF sy this]
      show ?thesis unfolding thrown(2) by (simp add: start_queued_def)
    qed
  qed
  with lo ro show ?thesis by (simp add: stop_ok_def)
qed

lemma stop_ok_submit:
  assumes "stopOnError opts" and "stop_ok opts st" and "\<not> (rejected st \<and> stopOnError opts)"
  shows "stop_ok opts (submit limit opts grp st)"
proof -
  have "sync_after_failure opts (settled (submit limit opts grp st))"
    using assms(2) by (simp add: stop_ok_def submit_def start_queued_def)
  then show ?thesis
    using assms by (simp add: stop_ok_def launched_ok_submit rejection_ok_submit)
qed

lemma stop_ok_run:
  assumes "stopOnError opts"
  shows "stop_ok opts (snd (coordinate pf opts limit sched ops w))"
  unfolding coordinate_def
proof (rule run_groups_invariant[where P = "stop_ok opts"])
  show "stop_ok opts (idle w)"
    by (simp add: stop_ok_def launched_ok_def rejection_ok_def idle_def)
  show "\<not> (rejected (idle w) \<and> stopOnError opts)" by (simp add: idle_def)
next
  fix s :: "'a coord" and i
  assume "stop_ok opts s" and "i < length (active s)"
    and "rejected s \<longrightarrow> is_rejecting (active s ! i)"
  with assms show "stop_ok opts (resume_task pf opts limit i s)" by (rule stop_ok_resume)
next
  fix s :: "'a coord" and grp
  assume "stop_ok opts s" and "\<not> (rejected s \<and> stopOnError opts)"
  with assms show "stop_ok opts (submit limit opts grp s)" by (rule stop_ok_submit)
qed

text \<open>
  A call that throws before its first \<^verbatim>\<open>await\<close>: with the options the schema lets
  through, it is a \<^verbatim>\<open>copy\<close> or \<^verbatim>\<open>move\<close> without destination, run with no retry.
\<close>

lemma attempt_calls_Inl:
  "attempt_calls op = Inl e \<longleftrightarrow> no_destination op \<and> e = destination_required op"
  by (auto simp: attempt_calls_def no_destination_def destination_required_def type_name_def
      split: op_type.splits option.splits if_splits)

lemma launch_rejects:
  assumes "0 \<le> retryAttempts opts"
  shows "t_wait (launch opts op) = Rejecting e
     \<longleftrightarrow> no_destination op \<and> retryAttempts opts = 0 \<and> e = destination_required op"
proof (cases "attempt_calls op")
  case (Inl e1)
  then have "no_destination op \<and> e1 = destination_required op"
    by (simp add: attempt_calls_Inl)
  with Inl assms show ?thesis
    by (auto simp: launch_def enter_loop_def on_failure_def)
next
  case (Inr cc)
  then have "\<not> no_destination op"
    using attempt_calls_Inl[of op "destination_required op"] by auto
  with Inr assms show ?thesis
    by (cases cc) (auto simp: launch_def enter_loop_def)
qed

subsection \<open>What happens after the handler has returned\<close>

text \<open>
  The callbacks handed to the limiter go on after the handler has returned: nothing
  watches them any more, so every running task goes on as the file system and the timers
  answer, and the limiter starts what is queued, until nothing is left.
\<close>

lemma settled_extends_resume:
  "\<exists>later. settled (resume_task pf opts limit i st) = settled st @ later"
  by (cases rule: resume_task_cases[where pf = pf and st = st and i = i and opts = opts and limit = limit])
     (simp_all add: start_queued_def)

lemma settled_extends_await_all:
  "\<exists>later. settled (snd (await_all pf opts limit watching sched st)) = settled st @ later"
proof (rule await_all_invariant[where P = "\<lambda>s. \<exists>later. settled s = settled st @ later"])
  show "\<exists>later. settled st = settled st @ later" by simp
next
  fix s :: "'a coord" and i
  assume "\<exists>later. settled s = settled st @ later"
  then obtain l1 where l1: "settled s = settled st @ l1" by blast
  obtain l2 where "settled (resume_task pf opts limit i s) = settled s @ l2"
    using settled_extends_resume by blast
  with l1 have "settled (resume_task pf opts limit i s) = settled st @ (l1 @ l2)" by simp
  then show "\<exists>later. settled (resume_task pf opts limit i s) = settled st @ later" by blast
qed

lemma background_run:
  assumes "filled limit st" and "0 < limit"
  shows "active (snd (await_all pf opts limit False sched st)) = []
       \<and> queue (snd (await_all pf opts limit False sched st)) = []
       \<and> mset (map fst (settled (snd (await_all pf opts limit False sched st))))
           = mset (submitted st)
       \<and> (\<exists>later. settled (snd (await_all pf opts limit False sched st)) = settled st @ later
             \<and> length later = length (active st) + length (queue st))
       \<and> (records_ok st \<longrightarrow> records_ok (snd (await_all pf opts limit False sched st)))"
proof -
  let ?st2 = "snd (await_all pf opts limit False sched st)"
  have a: "active ?st2 = []" using await_all_exit[of pf opts limit False sched st] by simp
  have "filled limit ?st2" using assms(1) by (rule filled_await_all)
  with a assms(2) have q: "queue ?st2 = []" by (auto simp: filled_def)
  have m: "mset (submitted ?st2) = mset (submitted st)" by (rule submitted_await_all)
  with a q have m2: "mset (map fst (settled ?st2)) = mset (submitted st)"
    by (simp add: submitted_def)
  obtain later where l: "settled ?st2 = settled st @ later"
    using settled_extends_await_all by blast
  have "length (settled ?st2) = length (submitted st)"
    using m2 by (metis length_map size_mset)
  with l have "length later = length (active st) + length (queue st)"
    by (simp add: submitted_def)
  with l have e: "\<exists>later. settled ?st2 = settled st @ later
      \<and> length later = length (active st) + length (queue st)" by blast
  have r: "records_ok st \<longrightarrow> records_ok ?st2"
  proof
    assume "records_ok st"
    then show "records_ok ?st2"
      by (rule await_all_invariant[where P = records_ok]) (simp add: records_ok_resume)
  qed
  from a q m2 e r show ?thesis by blast
qed

section \<open>A run of one task is one executor call\<close>

text \<open>
  The executor read await by await is the executor of the section on the operation
  executor: a task left to run alone settles as \<^const>\<open>exec_loop\<close> does.
  \<open>answer_calls\<close> delivers the answers to the calls of an attempt one after the other, up
  to the first rejection; \<open>task_run\<close> lets a task go on until it settles.
\<close>

fun answer_calls :: "'w platform \<Rightarrow> fs_request \<Rightarrow> fs_request list \<Rightarrow> 'w \<Rightarrow> (string + string) \<times> 'w" where
  "answer_calls pf c [] w = fs pf c w"
| "answer_calls pf c (c1 # cs) w =
     (case fs pf c w of (Inl m, w1) \<Rightarrow> (Inl m, w1) | (Inr v, w1) \<Rightarrow> answer_calls pf c1 cs w1)"

lemma try_body_by_calls:
  "try_body pf op attempt w =
     (case attempt_calls op of
        Inl e \<Rightarrow> (Inl e, w)
      | Inr (c, cs) \<Rightarrow>
          (case answer_calls pf c cs w of
             (Inl m, w1) \<Rightarrow> (Inl (Error m), w1)
           | (Inr v, w1) \<Rightarrow> (Inr (attempt_value pf op attempt v w1), w1)))"
  by (cases "type op")
     (auto simp: try_body_def attempt_calls_def attempt_value_def await_then_def
        split: option.splits prod.splits sum.splits)

function task_run :: "'w platform \<Rightarrow> BatchOptions \<Rightarrow> task \<Rightarrow> 'w \<Rightarrow> (thrown + json) \<times> 'w" where
  "task_run pf opts t w =
     (case task_step pf opts t w of
        (Waits t1, w1) \<Rightarrow> task_run pf opts t1 w1
      | (Returns v, w1) \<Rightarrow> (Inr v, w1)
      | (Throws e, w1) \<Rightarrow> (Inl e, w1))"
  by pat_completeness auto
termination
proof (relation "measure (\<lambda>(pf, opts, t, w). task_weight opts t)")
  show "wf (measure (\<lambda>(pf, opts, t, w). task_weight opts t))" by simp
next
  fix pf :: "'w platform" and opts t w x1 x2 t1
  assume "(x1, x2) = task_step pf opts t w" and "x1 = Waits t1"
  then have "task_step pf opts t w = (Waits t1, x2)" by simp
  from task_step_Waits[OF this]
  show "((pf, opts, t1, x2), (pf, opts, t, w)) \<in> measure (\<lambda>(pf, opts, t, w). task_weight opts t)"
    by simp
qed

declare task_run.simps [simp del]

lemma task_run_settle:
  "(case settle_or_wait t of Waits t1 \<Rightarrow> task_run pf opts t1 w
      | Returns v \<Rightarrow> (Inr v, w) | Throws e \<Rightarrow> (Inl e, w))
   = task_run pf opts t w"
proof (cases "t_wait t")
  case (Rejecting e)
  then show ?thesis
    by (subst (2) task_run.simps) (simp add: settle_or_wait_def task_step_def)
qed (simp_all add: settle_or_wait_def)

lemma task_run_step_settle:
  "task_step pf opts t w = (settle_or_wait t1, w1) \<Longrightarrow>
   task_run pf opts t w = task_run pf opts t1 w1"
  by (subst task_run.simps) (simp add: task_run_settle)

lemma task_run_answer:
  "task_run pf opts \<lparr>t_op = op, t_attempt = a, t_lastError = le, t_wait = Answer c cs\<rparr> w =
     (case answer_calls pf c cs w of
        (Inr v, w1) \<Rightarrow> (Inr (attempt_value pf op a v w1), w1)
      | (Inl m, w1) \<Rightarrow> task_run pf opts (on_failure opts op a (Error m)) w1)"
proof (induction cs arbitrary: c w)
  case Nil
  let ?t = "\<lparr>t_op = op, t_attempt = a, t_lastError = le, t_wait = Answer c []\<rparr>"
  obtain ans w1 where f: "fs pf c w = (ans, w1)" by (cases "fs pf c w")
  show ?case
  proof (cases ans)
    case (Inl m)
    with f have "task_step pf opts ?t w = (settle_or_wait (on_failure opts op a (Error m)), w1)"
      by (simp add: task_step_def)
    from task_run_step_settle[OF this] show ?thesis using f Inl by simp
  next
    case (Inr v)
    with f have "task_step pf opts ?t w = (Returns (attempt_value pf op a v w1), w1)"
      by (simp add: task_step_def)
    then show ?thesis using f Inr by (subst task_run.simps) simp
  qed
next
  case (Cons c1 cs)
  let ?t = "\<lparr>t_op = op, t_attempt = a, t_lastError = le, t_wait = Answer c (c1 # cs)\<rparr>"
  obtain ans w1 where f: "fs pf c w = (ans, w1)" by (cases "fs pf c w")
  show ?case
  proof (cases ans)
    case (Inl m)
    with f have "task_step pf opts ?t w = (settle_or_wait (on_failure opts op a (Error m)), w1)"
      by (simp add: task_step_def)
    from task_run_step_settle[OF this] show ?thesis using f Inl by simp
  next
    case (Inr v)
    with f have "task_step pf opts ?t w
        = (Waits \<lparr>t_op = op, t_attempt = a, t_lastError = le, t_wait = Answer c1 cs\<rparr>, w1)"
      by (simp add: task_step_def)
    then show ?thesis using f Inr Cons.IH[of c1 w1] by (subst task_run.simps) simp
  qed
qed

lemma task_run_timer:
  "task_run pf opts \<lparr>t_op = op, t_attempt = a, t_lastError = le, t_wait = Timer ms\<rparr> w
     = task_run pf opts (enter_loop opts op (Suc a) le) (sleep pf ms w)"
  by (rule task_run_step_settle) (simp add: task_step_def)

lemma task_run_rejecting:
  "task_run pf opts \<lparr>t_op = op, t_attempt = a, t_lastError = le, t_wait = Rejecting e\<rparr> w
     = (Inl e, w)"
  by (subst task_run.simps) (simp add: task_step_def)

lemma task_run_exec_loop:
  "task_run pf opts (enter_loop opts op a le) w = exec_loop pf op opts a le w"
proof (induction pf op opts a le w rule: exec_loop.induct)
  case (1 pf op opts attempt lastError w)
  show ?case
  proof (cases "of_nat attempt \<le> retryAttempts opts")
    case False
    then show ?thesis
      by (subst exec_loop.simps)
         (simp add: enter_loop_def loop_iteration_def task_run_rejecting)
  next
    case True
    obtain r w1 where tb: "try_body pf op attempt w = (r, w1)" by (cases "try_body pf op attempt w")
    have fail: "task_run pf opts (on_failure opts op attempt e) w1
        = exec_loop pf op opts attempt lastError w"
      if "r = Inl e" for e
    proof (cases "of_nat attempt < retryAttempts opts")
      case False
      then show ?thesis using True tb that
        by (subst exec_loop.simps)
           (simp add: loop_iteration_def on_failure_def task_run_rejecting)
    next
      case lt: True
      have li: "loop_iteration pf op opts attempt lastError w
          = (Retry (attempt + 1) e, sleep pf (1000 * (attempt + 1)) w1)"
        using True lt tb that by (simp add: loop_iteration_def)
      have "task_run pf opts (on_failure opts op attempt e) w1
          = task_run pf opts (enter_loop opts op (Suc attempt) e) (sleep pf (1000 * (attempt + 1)) w1)"
        using lt by (simp add: on_failure_def task_run_timer)
      also have "\<dots> = exec_loop pf op opts (attempt + 1) e (sleep pf (1000 * (attempt + 1)) w1)"
        using "1.IH"[OF li[symmetric] refl] by simp
      also have "\<dots> = exec_loop pf op opts attempt lastError w"
        using li by (subst (2) exec_loop.simps) simp
      finally show ?thesis .
    qed
    show ?thesis
    proof (cases "attempt_calls op")
      case (Inl e)
      then have "r = Inl e" and "w1 = w" using tb by (auto simp: try_body_by_calls)
      with fail[of e] Inl True show ?thesis by (simp add: enter_loop_def)
    next
      case (Inr cc)
      obtain c cs where cc: "cc = (c, cs)" by (cases cc)
      obtain ans w2 where ac: "answer_calls pf c cs w = (ans, w2)"
        by (cases "answer_calls pf c cs w")
      show ?thesis
      proof (cases ans)
        case (Inl m)
        then have "r = Inl (Error m)" and "w1 = w2"
          using tb Inr cc ac by (auto simp: try_body_by_calls)
        with fail[of "Error m"] Inl Inr cc ac True show ?thesis
          by (simp add: enter_loop_def task_run_answer)
      next
        case v: (Inr v)
        then have "r = Inr (attempt_value pf op attempt v w2)" and "w1 = w2"
          using tb Inr cc ac by (auto simp: try_body_by_calls)
        then have "exec_loop pf op opts attempt lastError w
            = (Inr (attempt_value pf op attempt v w2), w2)"
          using tb True by (subst exec_loop.simps) (simp add: loop_iteration_def)
        with v Inr cc ac True show ?thesis
          by (simp add: enter_loop_def task_run_answer)
      qed
    qed
  qed
qed

lemma start_queued_nothing: "queue st = [] \<Longrightarrow> start_queued limit opts st = st"
  by (simp add: start_queued_def)

lemma await_all_single:
  "active st = [t] \<Longrightarrow> queue st = [] \<Longrightarrow> \<not> rejected st \<Longrightarrow> world st = w \<Longrightarrow>
   snd (await_all pf opts limit watching sched st)
     = settle_with opts (t_op t) (task_run pf opts t w) st"
proof (induction pf opts t w arbitrary: st sched rule: task_run.induct)
  case (1 pf opts t w)
  have ne: "active st \<noteq> []" using "1.prems"(1) by simp
  have idx: "chosen sched st = 0" using "1.prems"(1) by (simp add: chosen_def split: choice.splits)
  have step: "snd (await_all pf opts limit watching sched st)
      = snd (await_all pf opts limit watching (tl sched) (resume_task pf opts limit 0 st))"
    using ne idx "1.prems"(3) by (subst await_all.simps) simp
  obtain r w1 where it: "task_step pf opts t w = (r, w1)" by (cases "task_step pf opts t w")
  show ?case
  proof (cases r)
    case (Returns v)
    have rt: "resume_task pf opts limit 0 st
        = st\<lparr>world := w1, active := [],
             results_arr := results_arr st @ [success_record (t_op t) v],
             settled := settled st @ [(t_op t, Inr v)]\<rparr>"
      using it Returns "1.prems"(1,2,4)
      by (simp add: resume_task_def Let_def start_queued_def)
    have "task_run pf opts t w = (Inr v, w1)"
      using it Returns by (subst task_run.simps) simp
    then show ?thesis unfolding step rt
      by (subst await_all.simps) (simp add: settle_with_def)
  next
    case (Throws e)
    have rt: "resume_task pf opts limit 0 st
        = st\<lparr>world := w1, active := [],
             errors_arr := errors_arr st @ [failure_record (t_op t) e],
             rejected := (rejected st \<or> stopOnError opts),
             settled := settled st @ [(t_op t, Inl e)]\<rparr>"
      using it Throws "1.prems"(1,2,4)
      by (simp add: resume_task_def Let_def start_queued_def)
    have "task_run pf opts t w = (Inl e, w1)"
      using it Throws by (subst task_run.simps) simp
    then show ?thesis unfolding step rt
      by (subst await_all.simps) (simp add: settle_with_def)
  next
    case (Waits t1)
    let ?st1 = "st\<lparr>world := w1, active := [t1]\<rparr>"
    have rt: "resume_task pf opts limit 0 st = ?st1"
      using it Waits "1.prems"(1,4) by (simp add: resume_task_def Let_def)
    have ex: "task_run pf opts t w = task_run pf opts t1 w1"
      using it Waits by (subst task_run.simps) simp
    have op: "t_op t1 = t_op t"
      using task_step_Waits[of pf opts t w t1 w1] it Waits by simp
    have "snd (await_all pf opts limit watching (tl sched) ?st1)
        = settle_with opts (t_op t1) (task_run pf opts t1 w1) ?st1"
      using "1.prems"(2,3)
      by (intro "1.IH"[OF it[symmetric] Waits]) simp_all
    also have "\<dots> = settle_with opts (t_op t) (task_run pf opts t1 w1) st"
      unfolding op by (simp add: settle_with_def split: prod.splits sum.splits)
    finally show ?thesis unfolding step rt ex .
  qed
qed

text \<open>
  A batch of one operation, under any schedule and any positive capacity: the one
  outcome is what \<open>executeFileOperation\<close> returns or throws from the initial world, and
  the world after the run is the one it leaves.
\<close>

lemma grouped_of_single: "grouped_of b [op] = [[op]]"
  by (simp add: grouped_of_def groupOperationsByType_def map_values_def group_push_def
      map_has_def map_get_def map_set_def)

lemma single_operation_run:
  assumes "0 < limit"
  shows "snd (coordinate pf opts limit sched [op] w)
       = settle_with opts op (executeFileOperation pf op opts w)
           ((idle w)\<lparr>active := [launch opts op]\<rparr>)"
proof -
  let ?st0 = "(idle w)\<lparr>active := [launch opts op]\<rparr>"
  have s: "submit limit opts [op] (idle w) = ?st0"
    using assms by (simp add: submit_def start_queued_def idle_def)
  have a: "snd (await_all pf opts limit True sched ?st0)
      = settle_with opts (t_op (launch opts op)) (task_run pf opts (launch opts op) w) ?st0"
    by (rule await_all_single) (simp_all add: idle_def)
  obtain sched1 st1 where r: "await_all pf opts limit True sched ?st0 = (sched1, st1)"
    by (cases "await_all pf opts limit True sched ?st0")
  have "snd (run_groups pf opts limit sched [[op]] (idle w)) = st1"
    using r by (simp add: s)
  with a r show ?thesis
    by (simp add: coordinate_def grouped_of_single executeFileOperation_def launch_def
        task_run_exec_loop)
qed

section \<open>The coordinator: the summary\<close>

lemma filled_run: "filled limit (snd (coordinate pf opts limit sched ops w))"
  unfolding coordinate_def
proof (rule run_groups_invariant[where P = "filled limit"])
  show "filled limit (idle w)" by (simp add: filled_def idle_def)
  show "\<not> (rejected (idle w) \<and> stopOnError opts)" by (simp add: idle_def)
qed (simp_all add: filled_resume filled_submit)

lemma all_settled_run:
  assumes "\<not> stopOnError opts" and "0 < limit"
  shows "length (settled (snd (coordinate pf opts limit sched ops w))) = length ops
       \<and> active (snd (coordinate pf opts limit sched ops w)) = []
       \<and> queue (snd (coordinate pf opts limit sched ops w)) = []"
proof -
  let ?st = "snd (coordinate pf opts limit sched ops w)"
  let ?groups = "grouped_of (groupByType opts) ops"
  have r: "rejection_ok opts (idle w)" using assms(1) by (simp add: rejection_ok_def idle_def)
  from run_groups_all_settled[OF assms r, of pf sched ?groups]
  have a: "active ?st = []" and q: "queue ?st = []"
    and m: "mset (submitted ?st) = mset (submitted (idle w)) + mset (concat ?groups)"
    by (simp_all add: coordinate_def idle_def)
  from m have "mset (submitted ?st) = mset (concat ?groups)"
    by (simp add: submitted_def idle_def)
  then have "length (submitted ?st) = length (concat ?groups)" by (metis size_mset)
  then have "length (settled ?st) = length ops"
    using a q by (simp add: submitted_def length_grouped_of)
  with a q show ?thesis by simp
qed

text \<open>
  Claim C1, amended in its last part. The summary's \<open>total\<close> is the number of input
  operations, \<open>successful\<close> and \<open>failed\<close> count the successes and the failures among the
  executor calls that settled before the summary was taken, so their sum is the number
  of settled calls. That number is at most the number of operations started, which is at
  most \<open>total\<close>; when \<open>stopOnError\<close> is false the three are equal.
\<close>

theorem summary_counts:
  "st = snd (coordinate pf opts limit sched ops w) \<Longrightarrow>
   total (summary_of ops st) = length ops
   \<and> successful (summary_of ops st) = length (filter (\<lambda>x. \<not> isl (snd x)) (settled st))
   \<and> failed (summary_of ops st) = length (filter (\<lambda>x. isl (snd x)) (settled st))
   \<and> successful (summary_of ops st) + failed (summary_of ops st) = length (settled st)
   \<and> length (settled st) \<le> started st \<and> started st \<le> total (summary_of ops st)
   \<and> (\<not> stopOnError opts \<and> 0 < limit \<longrightarrow>
        successful (summary_of ops st) + failed (summary_of ops st) = started st
        \<and> started st = total (summary_of ops st))"
proof -
  assume st: "st = snd (coordinate pf opts limit sched ops w)"
  have ok: "records_ok st" unfolding st by (rule records_ok_run)
  have le: "started st \<le> length ops" unfolding st by (rule started_le_total)
  have all: "\<not> stopOnError opts \<and> 0 < limit \<longrightarrow> length (settled st) = length ops \<and> active st = []"
    unfolding st using all_settled_run[of opts limit pf sched ops w] by blast
  show ?thesis
    using ok le all length_records[of "settled st"]
    by (simp add: summary_of_def records_ok_def length_success_records length_failure_records
        started_def)
qed

theorem summary_counts_witness:
  "\<not> stopOnError default_options \<and> (0::nat) < 10
   \<and> successful (summary_of [op_create_a, op_delete_missing]
        (snd (coordinate toy default_options 10 [] [op_create_a, op_delete_missing] toy_start)))
     + failed (summary_of [op_create_a, op_delete_missing]
        (snd (coordinate toy default_options 10 [] [op_create_a, op_delete_missing] toy_start)))
     = 2"
  using summary_counts [of "snd (coordinate toy default_options 10 [] [op_create_a, op_delete_missing] toy_start)"
      toy default_options 10 "[]" "[op_create_a, op_delete_missing]" toy_start]
  by (simp add: default_options_def summary_of_def)

text \<open>
  Claim C1 as stated fails: with \<open>stopOnError\<close>, two deletions of missing files run
  concurrently, both fail once, wait and call \<^verbatim>\<open>unlink\<close> again; the first fails again and
  ends the run, while the second, in its second attempt, is still in flight. The summary
  counts one outcome for two operations started.
\<close>

theorem summary_misses_started_operation:
  "successful (summary_of [op_delete_missing, op_delete_other]
      (snd (coordinate toy stop_options 10 [Advance 0, Advance 1, Advance 0, Advance 1, Advance 0]
             [op_delete_missing, op_delete_other] toy_start)))
   + failed (summary_of [op_delete_missing, op_delete_other]
      (snd (coordinate toy stop_options 10 [Advance 0, Advance 1, Advance 0, Advance 1, Advance 0]
             [op_delete_missing, op_delete_other] toy_start))) = 1
   \<and> started (snd (coordinate toy stop_options 10 [Advance 0, Advance 1, Advance 0, Advance 1, Advance 0]
             [op_delete_missing, op_delete_other] toy_start)) = 2
   \<and> map t_attempt (active (snd (coordinate toy stop_options 10
             [Advance 0, Advance 1, Advance 0, Advance 1, Advance 0]
             [op_delete_missing, op_delete_other] toy_start))) = [1]"
  by (simp add: eval_defs await_all.simps op_delete_missing_def op_delete_other_def stop_options_def
      summary_of_def started_def Let_def)

subsection \<open>The records of the summary\<close>

lemma success_records_explicit:
  "success_records xs
     = map (\<lambda>(op, v). JObj [(''operation'', JObj (op_json op)), (''result'', v),
                             (''status'', JStr ''success'')]) (successes xs)"
  by (induction xs rule: success_records.induct) (simp_all add: success_record_def)

lemma failure_records_explicit:
  "failure_records xs
     = map (\<lambda>(op, e). JObj [(''operation'', JObj (op_json op)), (''error'', JStr (error_message e)),
                             (''status'', JStr ''failed'')]) (failures xs)"
  by (induction xs rule: failure_records.induct) (simp_all add: failure_record_def)

lemma successes_mem: "(op, v) \<in> set (successes xs) \<longleftrightarrow> (op, Inr v) \<in> set xs"
  by (induction xs rule: successes.induct) auto

lemma failures_mem: "(op, e) \<in> set (failures xs) \<longleftrightarrow> (op, Inl e) \<in> set xs"
  by (induction xs rule: failures.induct) auto

lemma length_successes: "length (successes xs) = length (filter (\<lambda>x. \<not> isl (snd x)) xs)"
  by (induction xs rule: successes.induct) simp_all

lemma length_failures: "length (failures xs) = length (filter (\<lambda>x. isl (snd x)) xs)"
  by (induction xs rule: failures.induct) simp_all

lemma failure_records_mem:
  "(op, Inl e) \<in> set xs \<Longrightarrow> failure_record op e \<in> set (failure_records xs)"
  by (induction xs rule: failure_records.induct) auto

lemma submitted_subset_run:
  "mset (submitted (snd (coordinate pf opts limit sched ops w))) \<subseteq># mset ops"
proof -
  let ?st = "snd (coordinate pf opts limit sched ops w)"
  let ?groups = "grouped_of (groupByType opts) ops"
  obtain k where "mset (submitted ?st) = mset (submitted (idle w)) + mset (concat (take k ?groups))"
    using run_groups_prefix[of ?groups pf opts limit sched "idle w"]
    by (auto simp: coordinate_def)
  then have "mset (submitted ?st) = mset (concat (take k ?groups))"
    by (simp add: submitted_def idle_def)
  moreover have "mset (concat ?groups) = mset ops"
    by (simp add: grouped_of_def groupOperationsByType_spec mset_groups_spec)
  ultimately show ?thesis by (metis mset_concat_take)
qed

lemma settled_of_input:
  assumes "(op, out) \<in> set (settled (snd (coordinate pf opts limit sched ops w)))"
  shows "op \<in> set ops"
proof -
  let ?st = "snd (coordinate pf opts limit sched ops w)"
  from assms have "op \<in> set (submitted ?st)" by (force simp: submitted_def)
  then have "op \<in># mset (submitted ?st)" by simp
  then have "op \<in># mset ops"
    using set_mset_mono[OF submitted_subset_run[of pf opts limit sched ops w]] by blast
  then show ?thesis by simp
qed

text \<open>
  Every value recorded as a success is a value that \<^verbatim>\<open>executeFileOperation\<close> returns for
  that operation: line 296 for a \<^verbatim>\<open>read\<close>, lines 319-325 otherwise.
\<close>

definition values_ok :: "'w platform \<Rightarrow> 'w coord \<Rightarrow> bool" where
  "values_ok pf st \<longleftrightarrow>
     (\<forall>x \<in> set (successes (settled st)).
        if type (fst x) = Read then \<exists>c. snd x = read_payload (fst x) c
        else \<exists>a w1. snd x = success_payload pf (fst x) a w1)"

lemma task_step_Returns:
  "task_step pf opts t w = (Returns v, w1) \<Longrightarrow>
   \<exists>c. v = attempt_value pf (t_op t) (t_attempt t) c w1"
  by (auto simp: task_step_def settle_or_wait_def
      split: waiting.splits prod.splits sum.splits list.splits)

lemma successes_append: "successes (xs @ ys) = successes xs @ successes ys"
  by (induction xs rule: successes.induct) simp_all

lemma failures_append: "failures (xs @ ys) = failures xs @ failures ys"
  by (induction xs rule: failures.induct) simp_all

lemma values_ok_resume:
  assumes "values_ok pf st"
  shows "values_ok pf (resume_task pf opts limit i st)"
proof (cases rule: resume_task_cases[where pf = pf and st = st and i = i and opts = opts and limit = limit])
  case (waits t1 w1)
  then show ?thesis using assms by (simp add: values_ok_def)
next
  case (returned v w1)
  from task_step_Returns[OF returned(1)] obtain c
    where "v = attempt_value pf (t_op (active st ! i)) (t_attempt (active st ! i)) c w1" by blast
  then have "if type (t_op (active st ! i)) = Read then \<exists>c. v = read_payload (t_op (active st ! i)) c
      else \<exists>a w1. v = success_payload pf (t_op (active st ! i)) a w1"
    by (auto simp: attempt_value_def)
  then show ?thesis using assms unfolding returned(2)
    by (auto simp: values_ok_def start_queued_def successes_append)
next
  case (thrown e w1)
  then show ?thesis using assms
    by (simp add: values_ok_def start_queued_def successes_append)
qed

lemma values_ok_run: "values_ok pf (snd (coordinate pf opts limit sched ops w))"
  unfolding coordinate_def
proof (rule run_groups_invariant[where P = "values_ok pf"])
  show "values_ok pf (idle w)" by (simp add: values_ok_def idle_def)
  show "\<not> (rejected (idle w) \<and> stopOnError opts)" by (simp add: idle_def)
qed (simp_all add: values_ok_resume, simp add: values_ok_def submit_def start_queued_def)

text \<open>
  Claim C2, amended. The \<open>results\<close> of the summary are, in the order in which the
  executor calls settled, the records \<^verbatim>\<open>{ operation, result, status: 'success' }\<close> that
  line 218 pushes, one per success: \<open>operation\<close> is the operation, an input operation,
  and \<open>result\<close> is the value the executor returned for it, which is the operation with
  its content for a \<^verbatim>\<open>read\<close> and the object of lines 319-325 otherwise. The \<open>errors\<close> are
  the records \<^verbatim>\<open>{ operation, error, status: 'failed' }\<close> of line 221. For a batch of one
  operation for which \<^verbatim>\<open>executeFileOperation\<close> returns \<open>v\<close>, \<open>results\<close> is the one record
  whose \<open>result\<close> is \<open>v\<close>.
\<close>

theorem results_are_outcome_records:
  assumes "st = snd (coordinate pf opts limit sched ops w)"
  shows "results (summary_of ops st)
       = map (\<lambda>(op, v). JObj [(''operation'', JObj (op_json op)), (''result'', v),
                               (''status'', JStr ''success'')]) (successes (settled st))
    \<and> errors (summary_of ops st)
       = map (\<lambda>(op, e). JObj [(''operation'', JObj (op_json op)),
                               (''error'', JStr (error_message e)),
                               (''status'', JStr ''failed'')]) (failures (settled st))
    \<and> (\<forall>x \<in> set (successes (settled st)).
          fst x \<in> set ops
          \<and> (if type (fst x) = Read then \<exists>c. snd x = read_payload (fst x) c
             else \<exists>a w1. snd x = success_payload pf (fst x) a w1))
    \<and> (\<forall>op v w1. ops = [op] \<and> 0 < limit \<and> executeFileOperation pf op opts w = (Inr v, w1) \<longrightarrow>
          results (summary_of ops st)
            = [JObj [(''operation'', JObj (op_json op)), (''result'', v),
                     (''status'', JStr ''success'')]]
          \<and> errors (summary_of ops st) = [])"
proof (intro conjI ballI allI impI)
  have ok: "records_ok st" unfolding assms by (rule records_ok_run)
  show "results (summary_of ops st)
       = map (\<lambda>(op, v). JObj [(''operation'', JObj (op_json op)), (''result'', v),
                               (''status'', JStr ''success'')]) (successes (settled st))"
    using ok by (simp add: summary_of_def records_ok_def success_records_explicit)
  show "errors (summary_of ops st)
       = map (\<lambda>(op, e). JObj [(''operation'', JObj (op_json op)),
                               (''error'', JStr (error_message e)),
                               (''status'', JStr ''failed'')]) (failures (settled st))"
    using ok by (simp add: summary_of_def records_ok_def failure_records_explicit)
next
  fix x assume x: "x \<in> set (successes (settled st))"
  then have "(fst x, Inr (snd x)) \<in> set (settled st)"
    using successes_mem[of "fst x" "snd x" "settled st"] by simp
  then show "fst x \<in> set ops" unfolding assms by (rule settled_of_input)
  have "values_ok pf st" unfolding assms by (rule values_ok_run)
  with x show "if type (fst x) = Read then \<exists>c. snd x = read_payload (fst x) c
             else \<exists>a w1. snd x = success_payload pf (fst x) a w1"
    unfolding values_ok_def by blast
next
  fix op v w1
  assume h: "ops = [op] \<and> 0 < limit \<and> executeFileOperation pf op opts w = (Inr v, w1)"
  then have st: "st = settle_with opts op (Inr v, w1) ((idle w)\<lparr>active := [launch opts op]\<rparr>)"
    using single_operation_run[of limit pf opts sched op w] assms by simp
  show "results (summary_of ops st)
            = [JObj [(''operation'', JObj (op_json op)), (''result'', v),
                     (''status'', JStr ''success'')]]"
    unfolding st by (simp add: settle_with_def summary_of_def idle_def success_record_def)
  show "errors (summary_of ops st) = []"
    unfolding st by (simp add: settle_with_def summary_of_def idle_def)
qed

lemma create_a_run:
  "executeFileOperation toy op_create_a default_options toy_start
   = (Inr (JObj [(''type'', JStr ''create''), (''path'', JStr ''/tmp/a.txt''),
                 (''timestamp'', JStr ''T''), (''success'', JBool True), (''attempt'', JNum 1)]),
      \<lparr>files = [(''/tmp/b.txt'', ''hi''), (''/tmp/a.txt'', ''hi'')],
       calls = [Mkdir_parent ''/tmp/a.txt'', WriteFile ''/tmp/a.txt'' ''hi'' Utf8], clock = 0\<rparr>)"
  by (simp add: executeFileOperation_def exec_loop.simps loop_iteration_def try_body_def
      await_then_def success_payload_def type_name_def content_or_empty_def
      op_create_a_def default_options_def toy_def toy_fs_def toy_effect_def toy_start_def)

theorem results_are_outcome_records_witness:
  "[op_create_a] = [op_create_a] \<and> (0::nat) < 10
   \<and> fst (executeFileOperation toy op_create_a default_options toy_start)
       = Inr (JObj [(''type'', JStr ''create''), (''path'', JStr ''/tmp/a.txt''),
                    (''timestamp'', JStr ''T''), (''success'', JBool True), (''attempt'', JNum 1)])
   \<and> results (summary_of [op_create_a]
        (snd (coordinate toy default_options 10 [] [op_create_a] toy_start)))
       = [JObj [(''operation'',
                 JObj [(''type'', JStr ''create''), (''path'', JStr ''/tmp/a.txt''),
                       (''content'', JStr ''hi''), (''encoding'', JStr ''utf8'')]),
                (''result'',
                 JObj [(''type'', JStr ''create''), (''path'', JStr ''/tmp/a.txt''),
                       (''timestamp'', JStr ''T''), (''success'', JBool True),
                       (''attempt'', JNum 1)]),
                (''status'', JStr ''success'')]]"
proof -
  let ?st = "snd (coordinate toy default_options 10 [] [op_create_a] toy_start)"
  let ?v = "JObj [(''type'', JStr ''create''), (''path'', JStr ''/tmp/a.txt''),
                  (''timestamp'', JStr ''T''), (''success'', JBool True), (''attempt'', JNum 1)]"
  obtain w1 where r: "executeFileOperation toy op_create_a default_options toy_start = (Inr ?v, w1)"
    using create_a_run by blast
  from results_are_outcome_records [where pf = toy and opts = default_options and limit = 10
      and sched = "[]" and ops = "[op_create_a]" and w = toy_start, OF refl]
  have "\<forall>op v w1. [op_create_a] = [op] \<and> (0::nat) < 10
          \<and> executeFileOperation toy op default_options toy_start = (Inr v, w1) \<longrightarrow>
          results (summary_of [op_create_a] ?st)
            = [JObj [(''operation'', JObj (op_json op)), (''result'', v),
                     (''status'', JStr ''success'')]]
          \<and> errors (summary_of [op_create_a] ?st) = []"
    by blast
  with r have "results (summary_of [op_create_a] ?st)
      = [JObj [(''operation'', JObj (op_json op_create_a)), (''result'', ?v),
               (''status'', JStr ''success'')]]"
    by auto
  then show ?thesis using r
    by (simp add: op_json_def op_create_a_def type_name_def encoding_name_def)
qed

text \<open>
  Claim C2 as stated fails: for one \<^verbatim>\<open>create\<close> that succeeds, \<open>results\<close> is not the list of
  the executor's return values; its entry is the record around that value.
\<close>

theorem results_are_not_payloads:
  "results (summary_of [op_create_a]
      (snd (coordinate toy default_options 10 [] [op_create_a] toy_start)))
   \<noteq> success_payloads (settled (snd (coordinate toy default_options 10 [] [op_create_a] toy_start)))
   \<and> success_payloads (settled (snd (coordinate toy default_options 10 [] [op_create_a] toy_start)))
     = [JObj [(''type'', JStr ''create''), (''path'', JStr ''/tmp/a.txt''),
              (''timestamp'', JStr ''T''), (''success'', JBool True), (''attempt'', JNum 1)]]"
  by (simp add: eval_defs await_all.simps op_create_a_def default_options_def summary_of_def
      success_record_def success_payload_def type_name_def Let_def)

subsection \<open>The run under \<^verbatim>\<open>stopOnError\<close>\<close>

lemma rejection_ok_run: "rejection_ok opts (snd (coordinate pf opts limit sched ops w))"
  unfolding coordinate_def
proof (rule run_groups_invariant[where P = "rejection_ok opts"])
  show "rejection_ok opts (idle w)" by (simp add: rejection_ok_def idle_def)
  show "\<not> (rejected (idle w) \<and> stopOnError opts)" by (simp add: idle_def)
qed (simp_all add: rejection_ok_resume rejection_ok_submit)

lemma launch_failure_explicit:
  assumes "0 \<le> retryAttempts opts" and "launch_failure opts y"
  shows "(type (fst y) = Copy \<or> type (fst y) = Move)
       \<and> (destination (fst y) = None \<or> destination (fst y) = Some [])
       \<and> retryAttempts opts = 0
       \<and> snd y = Inl (Error (''Destination required for '' @ type_name (type (fst y))))"
proof (cases "snd y")
  case (Inl e)
  with assms(2) have "t_wait (launch opts (fst y)) = Rejecting e" by (simp add: launch_failure_def)
  with launch_rejects[OF assms(1), of "fst y" e] Inl show ?thesis
    by (simp add: no_destination_def destination_required_def)
next
  case (Inr v)
  with assms(2) show ?thesis by (simp add: launch_failure_def)
qed

lemma one_failure:
  assumes "xs = ss @ x # rest" and "\<forall>s \<in> set ss. \<not> isl (snd s)" and "isl (snd x)" and "rest = []"
  shows "length (filter (\<lambda>x. isl (snd x)) xs) = 1"
proof -
  have "filter (\<lambda>x. isl (snd x)) ss = []" using assms(2) by (simp add: filter_empty_conv)
  with assms(1,3,4) show ?thesis by simp
qed

text \<open>
  Claim C5, amended: the coordinator stops waiting, and nothing is aborted. With
  \<open>stopOnError\<close>, when some operation failed before the summary was taken:

  \<^item> its failure record is in \<open>errors\<close>;
  \<^item> the coordinator waits for no answer of the file system and for no timer once a
    failure is recorded: in the history, the first failure comes after successes only,
    and every outcome recorded after it is the failure of a \<^verbatim>\<open>copy\<close> or \<^verbatim>\<open>move\<close> without
    destination run with no retry, which throws as soon as it is called; so with
    \<open>retryAttempts > 0\<close> the summary holds exactly one failure;
  \<^item> the groups are \<open>pre @ g # post\<close> where the failed operation is in \<open>g\<close>, and the
    operations handed to the limiter are exactly those of \<open>pre\<close> and \<open>g\<close>: no operation
    of \<open>post\<close> is ever attempted;
  \<^item> the operations of \<open>g\<close> still running or queued at the return are not cancelled:
    however the file system and the timers answer afterwards, the limiter runs every
    one of them to its end, and their outcomes come after those of the summary, which
    does not hold them;
  \<^item> \<open>results\<close> keeps the record of every success settled so far, and \<open>errors\<close> that
    of every failure; \<open>total\<close> is the input length, and \<open>successful + failed\<close>, the
    number of outcomes recorded, is at most \<open>total\<close> less the number of operations
    still running or queued.
\<close>

theorem stop_on_error_contract:
  assumes "stopOnError opts" and "0 < limit" and "0 \<le> retryAttempts opts"
    and "st = snd (coordinate pf opts limit sched ops w)"
    and "(op, Inl e) \<in> set (settled st)"
  shows "JObj [(''operation'', JObj (op_json op)), (''error'', JStr (error_message e)),
               (''status'', JStr ''failed'')] \<in> set (errors (summary_of ops st))
    \<and> (\<exists>ss x rest. settled st = ss @ x # rest \<and> (\<forall>s \<in> set ss. \<not> isl (snd s)) \<and> isl (snd x)
          \<and> (\<forall>y \<in> set rest.
                (type (fst y) = Copy \<or> type (fst y) = Move)
                \<and> (destination (fst y) = None \<or> destination (fst y) = Some [])
                \<and> retryAttempts opts = 0
                \<and> snd y = Inl (Error (''Destination required for '' @ type_name (type (fst y))))))
    \<and> (0 < retryAttempts opts \<longrightarrow> failed (summary_of ops st) = 1)
    \<and> (\<exists>pre g post. grouped_of (groupByType opts) ops = pre @ g # post \<and> op \<in> set g
          \<and> mset (submitted st) = mset (concat pre) + mset g
          \<and> (\<forall>sched2.
                active (snd (await_all pf opts limit False sched2 st)) = []
                \<and> queue (snd (await_all pf opts limit False sched2 st)) = []
                \<and> mset (map fst (settled (snd (await_all pf opts limit False sched2 st))))
                    = mset (concat pre) + mset g
                \<and> (\<exists>later. settled (snd (await_all pf opts limit False sched2 st))
                              = settled st @ later
                      \<and> length later = length (active st) + length (queue st))))
    \<and> results (summary_of ops st)
        = map (\<lambda>(op, v). JObj [(''operation'', JObj (op_json op)), (''result'', v),
                                (''status'', JStr ''success'')]) (successes (settled st))
    \<and> errors (summary_of ops st)
        = map (\<lambda>(op, e). JObj [(''operation'', JObj (op_json op)),
                                (''error'', JStr (error_message e)),
                                (''status'', JStr ''failed'')]) (failures (settled st))
    \<and> total (summary_of ops st) = length ops
    \<and> successful (summary_of ops st) + failed (summary_of ops st) = length (settled st)
    \<and> length (settled st) + length (active st) + length (queue st) \<le> total (summary_of ops st)"
proof -
  let ?groups = "grouped_of (groupByType opts) ops"
  have st': "st = snd (run_groups pf opts limit sched ?groups (idle w))"
    using assms(4) by (simp add: coordinate_def)
  have ok: "records_ok st" unfolding assms(4) by (rule records_ok_run)
  have fl: "filled limit st" unfolding assms(4) by (rule filled_run)
  have sub: "mset (submitted st) \<subseteq># mset ops" unfolding assms(4) by (rule submitted_subset_run)
  have so: "stop_ok opts st" unfolding assms(4) using assms(1) by (rule stop_ok_run)
  have 1: "JObj [(''operation'', JObj (op_json op)), (''error'', JStr (error_message e)),
               (''status'', JStr ''failed'')] \<in> set (errors (summary_of ops st))"
    using ok failure_records_mem[OF assms(5)]
    by (simp add: summary_of_def records_ok_def failure_record_def)
  have fail: "\<exists>x \<in> set (settled st). isl (snd x)" using assms(5) by force
  from so have "sync_after_failure opts (settled st)" by (simp add: stop_ok_def)
  from sync_split[OF this fail] obtain ss x rest where d: "settled st = ss @ x # rest"
    "\<forall>s \<in> set ss. \<not> isl (snd s)" "isl (snd x)" "list_all (launch_failure opts) rest" by blast
  have lf: "\<forall>y \<in> set rest.
                (type (fst y) = Copy \<or> type (fst y) = Move)
                \<and> (destination (fst y) = None \<or> destination (fst y) = Some [])
                \<and> retryAttempts opts = 0
                \<and> snd y = Inl (Error (''Destination required for '' @ type_name (type (fst y))))"
  proof
    fix y assume "y \<in> set rest"
    with d(4) have "launch_failure opts y" by (simp add: list_all_iff)
    with assms(3) show "(type (fst y) = Copy \<or> type (fst y) = Move)
                \<and> (destination (fst y) = None \<or> destination (fst y) = Some [])
                \<and> retryAttempts opts = 0
                \<and> snd y = Inl (Error (''Destination required for '' @ type_name (type (fst y))))"
      by (rule launch_failure_explicit)
  qed
  with d(1,2,3) have 2: "\<exists>ss x rest. settled st = ss @ x # rest
          \<and> (\<forall>s \<in> set ss. \<not> isl (snd s)) \<and> isl (snd x)
          \<and> (\<forall>y \<in> set rest.
                (type (fst y) = Copy \<or> type (fst y) = Move)
                \<and> (destination (fst y) = None \<or> destination (fst y) = Some [])
                \<and> retryAttempts opts = 0
                \<and> snd y = Inl (Error (''Destination required for '' @ type_name (type (fst y)))))"
    by blast
  have 3: "0 < retryAttempts opts \<longrightarrow> failed (summary_of ops st) = 1"
  proof
    assume r: "0 < retryAttempts opts"
    have "rest = []"
    proof (cases rest)
      case (Cons y ys)
      with lf have "retryAttempts opts = 0" by simp
      with r show ?thesis by simp
    qed simp
    from one_failure[OF d(1,2,3) this] ok show "failed (summary_of ops st) = 1"
      by (simp add: summary_of_def records_ok_def length_failure_records)
  qed
  have rej: "rejected st"
    using rejection_ok_run[of opts pf limit sched ops w] assms(1,4) fail
    by (simp add: rejection_ok_def)
  have r: "rejection_ok opts (idle w)" using assms(1) by (simp add: rejection_ok_def idle_def)
  from run_groups_stop[OF assms(1,2) r, of pf sched ?groups] rej
  obtain pre g post where g: "?groups = pre @ g # post"
    "mset (submitted st) = mset (submitted (idle w)) + mset (concat pre) + mset g"
    "\<forall>x \<in> set (settled st). isl (snd x) \<longrightarrow> fst x \<in> set g"
    unfolding st' by (auto simp: idle_def)
  from g(3) assms(5) have mem: "op \<in> set g" by force
  from g(2) have sb: "mset (submitted st) = mset (concat pre) + mset g"
    by (simp add: submitted_def idle_def)
  have bg: "\<forall>sched2.
                active (snd (await_all pf opts limit False sched2 st)) = []
                \<and> queue (snd (await_all pf opts limit False sched2 st)) = []
                \<and> mset (map fst (settled (snd (await_all pf opts limit False sched2 st))))
                    = mset (concat pre) + mset g
                \<and> (\<exists>later. settled (snd (await_all pf opts limit False sched2 st))
                              = settled st @ later
                      \<and> length later = length (active st) + length (queue st))"
    using background_run[OF fl assms(2), of pf opts] sb by simp
  have 4: "\<exists>pre g post. ?groups = pre @ g # post \<and> op \<in> set g
          \<and> mset (submitted st) = mset (concat pre) + mset g
          \<and> (\<forall>sched2.
                active (snd (await_all pf opts limit False sched2 st)) = []
                \<and> queue (snd (await_all pf opts limit False sched2 st)) = []
                \<and> mset (map fst (settled (snd (await_all pf opts limit False sched2 st))))
                    = mset (concat pre) + mset g
                \<and> (\<exists>later. settled (snd (await_all pf opts limit False sched2 st))
                              = settled st @ later
                      \<and> length later = length (active st) + length (queue st)))"
    using g(1) mem sb bg by blast
  have 5: "results (summary_of ops st)
        = map (\<lambda>(op, v). JObj [(''operation'', JObj (op_json op)), (''result'', v),
                                (''status'', JStr ''success'')]) (successes (settled st))"
    using ok by (simp add: summary_of_def records_ok_def success_records_explicit)
  have errs: "errors (summary_of ops st)
        = map (\<lambda>(op, e). JObj [(''operation'', JObj (op_json op)),
                                (''error'', JStr (error_message e)),
                                (''status'', JStr ''failed'')]) (failures (settled st))"
    using ok by (simp add: summary_of_def records_ok_def failure_records_explicit)
  have 6: "successful (summary_of ops st) + failed (summary_of ops st) = length (settled st)"
    using ok length_records[of "settled st"] by (simp add: summary_of_def records_ok_def)
  have "length (submitted st) \<le> length ops" using sub by (metis size_mset size_mset_mono)
  then have 7: "length (settled st) + length (active st) + length (queue st)
      \<le> total (summary_of ops st)"
    by (simp add: submitted_def summary_of_def)
  from 1 2 3 4 5 errs 6 7 show ?thesis by (simp add: summary_of_def)
qed

lemma serial_stop_run:
  "snd (coordinate toy serial_stop_options 1 [] [op_delete_missing, op_delete_b] toy_start)
   = \<lparr>world = \<lparr>files = [(''/tmp/b.txt'', ''hi'')], calls = [Unlink ''/tmp/missing.txt''], clock = 0\<rparr>,
      results_arr = [],
      errors_arr = [failure_record op_delete_missing (Error ''ENOENT'')],
      queue = [],
      active = [\<lparr>t_op = op_delete_b, t_attempt = 0, t_lastError = Null,
                 t_wait = Answer (Unlink ''/tmp/b.txt'') []\<rparr>],
      rejected = True,
      settled = [(op_delete_missing, Inl (Error ''ENOENT''))]\<rparr>"
  by (simp add: eval_defs await_all.simps op_delete_missing_def op_delete_b_def serial_stop_options_def Let_def)

theorem stop_on_error_contract_witness:
  "stopOnError serial_stop_options \<and> (0::nat) < 1 \<and> 0 \<le> retryAttempts serial_stop_options
   \<and> (op_delete_missing, Inl (Error ''ENOENT''))
       \<in> set (settled (snd (coordinate toy serial_stop_options 1 [] [op_delete_missing, op_delete_b] toy_start)))
   \<and> JObj [(''operation'', JObj (op_json op_delete_missing)), (''error'', JStr ''ENOENT''),
            (''status'', JStr ''failed'')]
       \<in> set (errors (summary_of [op_delete_missing, op_delete_b]
            (snd (coordinate toy serial_stop_options 1 [] [op_delete_missing, op_delete_b] toy_start))))
   \<and> successful (summary_of [op_delete_missing, op_delete_b]
            (snd (coordinate toy serial_stop_options 1 [] [op_delete_missing, op_delete_b] toy_start)))
     + failed (summary_of [op_delete_missing, op_delete_b]
            (snd (coordinate toy serial_stop_options 1 [] [op_delete_missing, op_delete_b] toy_start)))
     = 1
   \<and> length (active (snd (coordinate toy serial_stop_options 1 [] [op_delete_missing, op_delete_b] toy_start)))
     = 1"
proof -
  let ?st = "snd (coordinate toy serial_stop_options 1 [] [op_delete_missing, op_delete_b] toy_start)"
  have a: "stopOnError serial_stop_options" by (simp add: serial_stop_options_def)
  have b: "(0::nat) < 1" by simp
  have b2: "0 \<le> retryAttempts serial_stop_options" by (simp add: serial_stop_options_def)
  have c: "(op_delete_missing, Inl (Error ''ENOENT'')) \<in> set (settled ?st)"
    unfolding serial_stop_run by simp
  from stop_on_error_contract[OF a b b2 refl c]
  have "JObj [(''operation'', JObj (op_json op_delete_missing)),
              (''error'', JStr (error_message (Error ''ENOENT''))), (''status'', JStr ''failed'')]
          \<in> set (errors (summary_of [op_delete_missing, op_delete_b] ?st))"
    and "successful (summary_of [op_delete_missing, op_delete_b] ?st)
          + failed (summary_of [op_delete_missing, op_delete_b] ?st) = length (settled ?st)"
    by blast+
  moreover have "length (settled ?st) = 1" and "length (active ?st) = 1"
    unfolding serial_stop_run by simp_all
  ultimately show ?thesis using a b b2 c by (simp add: error_message_def)
qed

text \<open>
  Claim C5 as stated fails where it says that the remaining work of the group is
  aborted. With a limiter of capacity 1, \<open>stopOnError\<close> and no retry, the deletion of a
  missing file fails and the coordinator returns a summary with one failure of two
  operations; by then the limiter has started the second operation of the group, whose
  \<^verbatim>\<open>unlink\<close> of \<^verbatim>\<open>/tmp/b.txt\<close> is pending, and once the file system answers the file is
  gone: the operation succeeds after the summary was taken.
\<close>

theorem remaining_work_is_not_aborted:
  "failed (summary_of [op_delete_missing, op_delete_b]
        (snd (coordinate toy serial_stop_options 1 [] [op_delete_missing, op_delete_b] toy_start))) = 1
   \<and> successful (summary_of [op_delete_missing, op_delete_b]
        (snd (coordinate toy serial_stop_options 1 [] [op_delete_missing, op_delete_b] toy_start))) = 0
   \<and> map t_wait (active (snd (coordinate toy serial_stop_options 1 []
        [op_delete_missing, op_delete_b] toy_start)))
     = [Answer (Unlink ''/tmp/b.txt'') []]
   \<and> world (snd (await_all toy serial_stop_options 1 False []
        (snd (coordinate toy serial_stop_options 1 [] [op_delete_missing, op_delete_b] toy_start))))
     = \<lparr>files = [], calls = [Unlink ''/tmp/missing.txt'', Unlink ''/tmp/b.txt''], clock = 0\<rparr>
   \<and> map fst (successes (settled (snd (await_all toy serial_stop_options 1 False []
        (snd (coordinate toy serial_stop_options 1 [] [op_delete_missing, op_delete_b] toy_start))))))
     = [op_delete_b]"
  unfolding serial_stop_run
  by (simp add: eval_defs await_all.simps op_delete_b_def serial_stop_options_def summary_of_def
      Let_def)

section \<open>The handler and the tool boundary\<close>

lemma parse_default_options: "parse_BatchOptions (JObj []) = Some default_options"
  by (simp add: parse_BatchOptions_def obj_get_def z_number_def z_boolean_def default_options_def)

lemma resolve_options_Some:
  "resolve_options req = Some (case options req of None \<Rightarrow> default_options | Some os \<Rightarrow> os)"
  by (simp add: resolve_options_def parse_default_options split: option.splits)

lemma z_number_range: "z_number P d v = Some r \<Longrightarrow> P r \<or> (v = None \<and> r = d)"
  by (auto simp: z_number_def split: option.splits json.splits if_splits)

lemma parse_BatchOptions_range:
  assumes "parse_BatchOptions j = Some os"
  shows "1 \<le> maxConcurrent os \<and> maxConcurrent os \<le> 100 \<and> 1000 \<le> timeoutMs os
       \<and> 0 \<le> retryAttempts os \<and> retryAttempts os \<le> 3"
proof -
  from assms obtain props where j: "j = JObj props"
    by (cases j) (simp_all add: parse_BatchOptions_def)
  from assms j obtain
    m: "z_number (\<lambda>r. 1 \<le> r \<and> r \<le> 100) 10 (obj_get props ''maxConcurrent'') = Some (maxConcurrent os)"
    and t: "z_number (\<lambda>r. 1000 \<le> r) 30000 (obj_get props ''timeoutMs'') = Some (timeoutMs os)"
    and r: "z_number (\<lambda>r. 0 \<le> r \<and> r \<le> 3) 1 (obj_get props ''retryAttempts'') = Some (retryAttempts os)"
    by (auto simp: parse_BatchOptions_def split: option.splits)
  from z_number_range[OF m] z_number_range[OF t] z_number_range[OF r]
  show ?thesis by auto
qed

lemma parse_BatchRequest_options:
  "parse_BatchRequest args = Some req \<Longrightarrow> options req = Some os \<Longrightarrow>
   \<exists>j. parse_BatchOptions j = Some os"
  by (auto simp: parse_BatchRequest_def split: json.splits option.splits)

lemma resolved_options_range:
  assumes "parse_BatchRequest args = Some req" and "resolve_options req = Some opts"
  shows "1 \<le> maxConcurrent opts \<and> maxConcurrent opts \<le> 100 \<and> 1000 \<le> timeoutMs opts
       \<and> 0 \<le> retryAttempts opts \<and> retryAttempts opts \<le> 3"
proof (cases "options req")
  case None
  with assms(2) have "opts = default_options" by (simp add: resolve_options_Some)
  then show ?thesis by (simp add: default_options_def)
next
  case (Some os)
  with assms(2) have "opts = os" by (simp add: resolve_options_Some)
  with parse_BatchOptions_range parse_BatchRequest_options[OF assms(1) Some]
  show ?thesis by blast
qed

text \<open>
  The capacities that \<^verbatim>\<open>pLimit\<close> accepts among those the schema lets through are the
  integers; it refuses every other one.
\<close>

lemma pLimit_integer: "0 < n \<Longrightarrow> pLimit (of_nat n) = Inr n"
  by (simp add: pLimit_def)

lemma pLimit_Nats:
  assumes "1 \<le> c"
  shows "pLimit c = (if c \<in> \<nat> then Inr (nat \<lfloor>c\<rfloor>)
                     else Inl (Error ''Expected `concurrency` to be a number from 1 and up''))"
proof (cases "c \<in> \<nat>")
  case True
  then obtain n where n: "c = of_nat n" by (auto simp: Nats_def)
  with assms have "0 < n" by (cases n) simp_all
  with n True show ?thesis by (simp add: pLimit_def)
next
  case False
  have "of_int \<lfloor>c\<rfloor> \<noteq> c"
  proof
    assume e: "of_int \<lfloor>c\<rfloor> = c"
    have "0 \<le> \<lfloor>c\<rfloor>" using assms by simp
    then have "of_int \<lfloor>c\<rfloor> = (of_nat (nat \<lfloor>c\<rfloor>) :: rat)" by simp
    with e have "c = of_nat (nat \<lfloor>c\<rfloor>)" by simp
    then have "c \<in> \<nat>" by (metis of_nat_in_Nats)
    with False show False by simp
  qed
  with False show ?thesis by (simp add: pLimit_def)
qed


lemma handler_returns_summary:
  assumes "parse_BatchRequest args = Some req" and "resolve_options req = Some opts"
    and "pLimit (maxConcurrent opts) = Inr n"
  shows "handleBatchFileOperations pf sched args w
     = (Inr (stringify pf (summary_json (summary_of (operations req)
                (snd (coordinate pf opts n sched (operations req) w))))),
        coordinate pf opts n sched (operations req) w)"
  using assms by (simp add: handleBatchFileOperations_def split: prod.splits)

lemma submit_empty_idle: "submit limit opts [] (idle w) = idle w"
  by (simp add: submit_def start_queued_def idle_def)

lemma coordinate_empty: "coordinate pf opts limit sched [] w = (sched, idle w)"
proof (cases "groupByType opts")
  case True
  then show ?thesis
    by (simp add: coordinate_def grouped_of_def groupOperationsByType_def map_values_def)
next
  case False
  have "await_all pf opts limit True sched (idle w) = (sched, idle w)"
    by (subst await_all.simps) (simp add: idle_def)
  then show ?thesis using False
    by (simp add: coordinate_def grouped_of_def submit_empty_idle)
qed

text \<open>
  Claim C10, amended. For a request that parses with an empty \<open>operations\<close> list and an
  integer \<open>maxConcurrent\<close> (the default is 10), whatever the other options and the
  platform, the handler returns the text of the summary with \<open>total\<close>, \<open>successful\<close> and
  \<open>failed\<close> 0 and empty \<open>results\<close> and \<open>errors\<close>, and at the return nothing has run, runs
  or is queued, in the world the handler started in: no file operation was executed.
\<close>

theorem empty_batch:
  assumes "parse_BatchRequest args = Some req" and "operations req = []"
    and "resolve_options req = Some opts" and "maxConcurrent opts \<in> \<nat>"
  shows "handleBatchFileOperations pf sched args w
           = (Inr (stringify pf (JObj [(''total'', JNum 0), (''successful'', JNum 0),
                                       (''failed'', JNum 0), (''results'', JArr []),
                                       (''errors'', JArr [])])),
              sched,
              \<lparr>world = w, results_arr = [], errors_arr = [], queue = [], active = [],
               rejected = False, settled = []\<rparr>)"
proof -
  have "1 \<le> maxConcurrent opts" using resolved_options_range[OF assms(1,3)] by simp
  from pLimit_Nats[OF this] assms(4)
  have "pLimit (maxConcurrent opts) = Inr (nat \<lfloor>maxConcurrent opts\<rfloor>)" by simp
  from handler_returns_summary[OF assms(1,3) this, of pf sched w] assms(2)
  show ?thesis
    by (simp add: coordinate_empty summary_of_def summary_json_def idle_def)
qed

theorem empty_batch_witness:
  "parse_BatchRequest empty_args = Some \<lparr>operations = [], options = None\<rparr>
   \<and> resolve_options \<lparr>operations = [], options = None\<rparr> = Some default_options
   \<and> maxConcurrent default_options \<in> \<nat>
   \<and> handleBatchFileOperations toy [] empty_args toy_start
       = (Inr (stringify toy (JObj [(''total'', JNum 0), (''successful'', JNum 0),
                                    (''failed'', JNum 0), (''results'', JArr []),
                                    (''errors'', JArr [])])),
          [],
          \<lparr>world = \<lparr>files = [(''/tmp/b.txt'', ''hi'')], calls = [], clock = 0\<rparr>,
           results_arr = [], errors_arr = [], queue = [], active = [],
           rejected = False, settled = []\<rparr>)"
proof -
  have a: "parse_BatchRequest empty_args = Some \<lparr>operations = [], options = None\<rparr>"
    by (simp add: parse_BatchRequest_def empty_args_def obj_get_def)
  have b: "operations \<lparr>operations = [], options = None\<rparr> = []" by simp
  have c: "resolve_options \<lparr>operations = [], options = None\<rparr> = Some default_options"
    by (simp add: resolve_options_Some)
  have "maxConcurrent default_options = of_nat 10" by (simp add: default_options_def)
  then have d: "maxConcurrent default_options \<in> \<nat>" by (metis of_nat_in_Nats)
  from empty_batch[OF a b c d, of toy "[]" toy_start] a c d show ?thesis
    by (simp add: toy_start_def)
qed

text \<open>
  Claim C10 as stated fails for a request that the schema accepts: \<open>operations\<close> empty
  and \<open>maxConcurrent\<close> 2.5. The schema asks for a number between 1 and 100, not for an
  integer; \<^verbatim>\<open>pLimit(2.5)\<close> throws, the handler returns no summary, and the tool answers
  with the text of the error.
\<close>

theorem fractional_capacity_gets_no_summary:
  "parse_BatchRequest fractional_args
     = Some \<lparr>operations = [], options = Some (default_options\<lparr>maxConcurrent := 5 / 2\<rparr>)\<rparr>
   \<and> fst (handleBatchFileOperations toy [] fractional_args toy_start)
     = Inl (Error ''Expected `concurrency` to be a number from 1 and up'')
   \<and> fst (callTool toy [] ''batch_file_operations'' fractional_args toy_start)
     = ''Error: Expected `concurrency` to be a number from 1 and up''"
proof -
  have "\<lfloor>5 / 2 :: rat\<rfloor> = 2" by (rule floor_unique) simp_all
  then have "pLimit (5 / 2) = Inl (Error ''Expected `concurrency` to be a number from 1 and up'')"
    by (simp add: pLimit_def)
  then show ?thesis
    by (simp add: parse_BatchRequest_def fractional_args_def obj_get_def parse_BatchOptions_def
        z_number_def z_boolean_def default_options_def callTool_def handleBatchFileOperations_def
        resolve_options_Some error_message_def)
qed

subsection \<open>Failures of operations and failures of the request\<close>

lemma all_settled_mset:
  assumes "\<not> stopOnError opts" and "0 < limit"
  shows "mset (map fst (settled (snd (coordinate pf opts limit sched ops w)))) = mset ops"
proof -
  let ?st = "snd (coordinate pf opts limit sched ops w)"
  let ?groups = "grouped_of (groupByType opts) ops"
  have r: "rejection_ok opts (idle w)" using assms(1) by (simp add: rejection_ok_def idle_def)
  from run_groups_all_settled[OF assms r, of pf sched ?groups]
  have a: "active ?st = []" and q: "queue ?st = []"
    and m: "mset (submitted ?st) = mset (submitted (idle w)) + mset (concat ?groups)"
    by (simp_all add: coordinate_def idle_def)
  have "mset (concat ?groups) = mset ops"
    by (simp add: grouped_of_def groupOperationsByType_spec mset_groups_spec)
  with m a q show ?thesis by (simp add: submitted_def idle_def)
qed






subsection \<open>The timeout option\<close>

lemma loop_iteration_timeout:
  "loop_iteration pf op (opts\<lparr>timeoutMs := t\<rparr>) a le w = loop_iteration pf op opts a le w"
  by (simp add: loop_iteration_def split: prod.splits sum.splits)

lemma exec_loop_timeout:
  "exec_loop pf op (opts\<lparr>timeoutMs := t\<rparr>) a le w = exec_loop pf op opts a le w"
proof (induction pf op opts a le w rule: exec_loop.induct)
  case (1 pf op opts attempt lastError w)
  show ?case
    by (subst exec_loop.simps, subst (2) exec_loop.simps)
       (auto simp: loop_iteration_timeout "1.IH" split: prod.splits iteration.splits)
qed

lemma launch_timeout: "launch (opts\<lparr>timeoutMs := t\<rparr>) op = launch opts op"
  by (simp add: launch_def enter_loop_def on_failure_def split: sum.splits prod.splits)

lemma task_step_timeout:
  "task_step pf (opts\<lparr>timeoutMs := t\<rparr>) tk w = task_step pf opts tk w"
  by (simp add: task_step_def enter_loop_def on_failure_def
      split: waiting.splits sum.splits prod.splits list.splits)

lemma start_queued_timeout:
  "start_queued limit (opts\<lparr>timeoutMs := t\<rparr>) st = start_queued limit opts st"
  by (simp add: start_queued_def launch_timeout)

lemma resume_task_timeout:
  "resume_task pf (opts\<lparr>timeoutMs := t\<rparr>) limit i st = resume_task pf opts limit i st"
  by (simp add: resume_task_def task_step_timeout start_queued_timeout Let_def
      split: prod.splits progress.splits)

lemma await_all_timeout:
  "await_all pf (opts\<lparr>timeoutMs := t\<rparr>) limit watching sched st
   = await_all pf opts limit watching sched st"
proof (induction pf opts limit watching sched st rule: await_all.induct)
  case (1 pf opts limit watching sched st)
  note L = await_all.simps[of pf "opts\<lparr>timeoutMs := t\<rparr>" limit watching sched st]
  note R = await_all.simps[of pf opts limit watching sched st]
  show ?case
  proof (cases "active st = []")
    case True
    then show ?thesis unfolding L R by simp
  next
    case False
    show ?thesis
    proof (cases "watching \<and> rejected st
              \<and> (next_choice sched = Resume \<or> \<not> is_rejecting (active st ! chosen sched st))")
      case True
      with False show ?thesis unfolding L R by simp
    next
      case F2: False
      from "1.IH"[OF False F2] False F2
      show ?thesis unfolding L R by (auto simp: resume_task_timeout)
    qed
  qed
qed

lemma submit_timeout:
  "submit limit (opts\<lparr>timeoutMs := t\<rparr>) grp st = submit limit opts grp st"
  by (simp add: submit_def start_queued_timeout)

lemma run_groups_timeout:
  "run_groups pf (opts\<lparr>timeoutMs := t\<rparr>) limit sched groups st
   = run_groups pf opts limit sched groups st"
  by (induction groups arbitrary: sched st)
     (simp_all add: await_all_timeout submit_timeout split: prod.splits)

lemma coordinate_timeout:
  "coordinate pf (opts\<lparr>timeoutMs := t\<rparr>) limit sched ops w = coordinate pf opts limit sched ops w"
  by (simp add: coordinate_def run_groups_timeout)

lemma parse_options_with_timeout:
  assumes "1000 \<le> t"
  shows "parse_BatchOptions (JObj ((''timeoutMs'', JNum t) # other_options))
       = map_option (\<lambda>os. os\<lparr>timeoutMs := t\<rparr>)
           (parse_BatchOptions (JObj ((''timeoutMs'', JNum 1000) # other_options)))"
  using assms
  by (simp add: parse_BatchOptions_def obj_get_def z_number_def split: option.splits)

lemma request_with_timeout:
  assumes "1000 \<le> t"
  shows "parse_BatchRequest (with_timeout t other_options ops)
       = map_option (\<lambda>req. req\<lparr>options := map_option (\<lambda>os. os\<lparr>timeoutMs := t\<rparr>) (options req)\<rparr>)
           (parse_BatchRequest (with_timeout 1000 other_options ops))"
  using parse_options_with_timeout[OF assms, of other_options]
  by (auto simp: parse_BatchRequest_def with_timeout_def obj_get_def
        split: json.splits option.splits)

lemma resolve_with_timeout:
  "resolve_options (req\<lparr>options := map_option (\<lambda>os. os\<lparr>timeoutMs := t\<rparr>) (options req)\<rparr>)
   = Some (case options req of None \<Rightarrow> default_options
           | Some os \<Rightarrow> os\<lparr>timeoutMs := t\<rparr>)"
  by (simp add: resolve_options_Some split: option.splits)

lemma handler_with_timeout:
  assumes "1000 \<le> t" and "parse_BatchRequest (with_timeout t other_options ops) \<noteq> None"
  shows "handleBatchFileOperations pf sched (with_timeout t other_options ops) w
       = handleBatchFileOperations pf sched (with_timeout 1000 other_options ops) w"
proof -
  from assms(2) obtain req where Some: "parse_BatchRequest (with_timeout 1000 other_options ops) = Some req"
    by (auto simp: request_with_timeout[OF assms(1)])
  have o: "options req \<noteq> None"
    using Some by (auto simp: parse_BatchRequest_def with_timeout_def obj_get_def
        split: json.splits option.splits)
  then obtain os where os: "options req = Some os" by auto
  have p: "parse_BatchRequest (with_timeout t other_options ops)
      = Some (req\<lparr>options := Some (os\<lparr>timeoutMs := t\<rparr>)\<rparr>)"
    using Some os by (simp add: request_with_timeout[OF assms(1)])
  show ?thesis
    unfolding handleBatchFileOperations_def p Some
    using os
    by (simp add: resolve_options_Some coordinate_timeout split: sum.splits prod.splits)
qed

text \<open>
  Claim C8. The executor and the coordinator behave the same whatever \<open>timeoutMs\<close> is; so
  two requests that parse and differ only in a valid \<open>timeoutMs\<close> get the same response,
  the same state of the world and the same summary, on every platform and under every
  schedule. The option is validated (a value below 1000 is refused) and defaulted (to
  30000).
\<close>

theorem timeout_is_never_enforced:
  "executeFileOperation pf op (opts\<lparr>timeoutMs := t\<rparr>) w = executeFileOperation pf op opts w
   \<and> coordinate pf (opts\<lparr>timeoutMs := t\<rparr>) limit sched ops w = coordinate pf opts limit sched ops w
   \<and> (1000 \<le> t1 \<and> 1000 \<le> t2
        \<and> parse_BatchRequest (with_timeout t1 other_options ops_json) \<noteq> None \<longrightarrow>
        parse_BatchRequest (with_timeout t2 other_options ops_json) \<noteq> None
        \<and> handleBatchFileOperations pf sched (with_timeout t1 other_options ops_json) w
          = handleBatchFileOperations pf sched (with_timeout t2 other_options ops_json) w)
   \<and> (t < 1000 \<longrightarrow> parse_BatchRequest (with_timeout t other_options ops_json) = None)
   \<and> timeoutMs default_options = 30000"
proof (intro conjI impI)
  show "executeFileOperation pf op (opts\<lparr>timeoutMs := t\<rparr>) w = executeFileOperation pf op opts w"
    by (simp add: executeFileOperation_def exec_loop_timeout)
  show "coordinate pf (opts\<lparr>timeoutMs := t\<rparr>) limit sched ops w = coordinate pf opts limit sched ops w"
    by (rule coordinate_timeout)
  show "timeoutMs default_options = 30000" by (simp add: default_options_def)
next
  assume h: "1000 \<le> t1 \<and> 1000 \<le> t2
        \<and> parse_BatchRequest (with_timeout t1 other_options ops_json) \<noteq> None"
  then have "parse_BatchRequest (with_timeout 1000 other_options ops_json) \<noteq> None"
    using request_with_timeout[of t1 other_options ops_json] by auto
  with h show p2: "parse_BatchRequest (with_timeout t2 other_options ops_json) \<noteq> None"
    using request_with_timeout[of t2 other_options ops_json] by auto
  from h p2 show "handleBatchFileOperations pf sched (with_timeout t1 other_options ops_json) w
          = handleBatchFileOperations pf sched (with_timeout t2 other_options ops_json) w"
    using handler_with_timeout[of t1 other_options ops_json pf sched w]
      handler_with_timeout[of t2 other_options ops_json pf sched w] by simp
next
  assume "t < 1000"
  then show "parse_BatchRequest (with_timeout t other_options ops_json) = None"
    by (auto simp: parse_BatchRequest_def with_timeout_def obj_get_def parse_BatchOptions_def
        z_number_def split: json.splits option.splits)
qed

theorem timeout_is_never_enforced_witness:
  "(1000::rat) \<le> 1000 \<and> (1000::rat) \<le> 60000
   \<and> parse_BatchRequest (with_timeout 1000 [] scenario_ops_json) \<noteq> None
   \<and> handleBatchFileOperations toy [] (with_timeout 1000 [] scenario_ops_json) toy_start
     = handleBatchFileOperations toy [] (with_timeout 60000 [] scenario_ops_json) toy_start
   \<and> parse_BatchRequest (with_timeout 999 [] scenario_ops_json) = None"
proof -
  have p: "parse_BatchRequest (with_timeout 1000 [] scenario_ops_json) \<noteq> None"
    by (simp add: parse_BatchRequest_def with_timeout_def scenario_ops_json_def obj_get_def
        parse_FileOperation_def parse_BatchOptions_def z_number_def z_boolean_def
        z_type_def z_string_def z_string_optional_def z_encoding_def)
  from timeout_is_never_enforced[where pf = toy and t = 999 and ?t1.0 = 1000 and ?t2.0 = 60000
      and other_options = "[]" and ops_json = scenario_ops_json and sched = "[]"
      and w = toy_start] p
  show ?thesis by simp
qed

section \<open>Copy and move without a destination\<close>

lemma try_body_lacks_destination:
  "lacks_destination op \<Longrightarrow> try_body pf op a w = (Inl (destination_required op), w)"
  by (auto simp: lacks_destination_def try_body_def destination_required_def type_name_def)

lemma loop_iteration_lacks_destination:
  assumes "lacks_destination op" and "0 \<le> retryAttempts opts"
    and "a = 0 \<or> le = destination_required op"
  shows "(\<exists>w1. loop_iteration pf op opts a le w = (Retry (Suc a) (destination_required op), w1))
       \<or> (\<exists>w1. loop_iteration pf op opts a le w = (Thrown (destination_required op), w1))"
  using assms(2,3)
  by (auto simp: loop_iteration_def try_body_lacks_destination[OF assms(1)])

lemma exec_loop_lacks_destination:
  assumes "lacks_destination op" and "0 \<le> retryAttempts opts"
  shows "a = 0 \<or> le = destination_required op \<Longrightarrow>
         fst (exec_loop pf op opts a le w) = Inl (destination_required op)"
  using assms
proof (induction pf op opts a le w rule: exec_loop.induct)
  case (1 pf op opts attempt lastError w)
  from loop_iteration_lacks_destination[OF "1.prems"(2,3,1), of pf w]
  show ?case
  proof
    assume "\<exists>w1. loop_iteration pf op opts attempt lastError w
                 = (Retry (Suc attempt) (destination_required op), w1)"
    then obtain w1 where it: "loop_iteration pf op opts attempt lastError w
                 = (Retry (Suc attempt) (destination_required op), w1)" by blast
    from "1.IH"[OF it[symmetric] refl _ "1.prems"(2,3)] it
    show ?thesis by (subst exec_loop.simps) simp
  next
    assume "\<exists>w1. loop_iteration pf op opts attempt lastError w
                 = (Thrown (destination_required op), w1)"
    then show ?thesis by (subst exec_loop.simps) auto
  qed
qed

lemma launch_lacks_destination:
  assumes "lacks_destination op" and "0 \<le> retryAttempts opts"
  shows "(\<exists>ms. t_wait (launch opts op) = Timer ms
            \<and> t_lastError (launch opts op) = destination_required op)
       \<or> t_wait (launch opts op) = Rejecting (destination_required op)"
proof -
  have "no_destination op" using assms(1) by (simp add: lacks_destination_def no_destination_def)
  then have "attempt_calls op = Inl (destination_required op)" by (simp add: attempt_calls_Inl)
  then show ?thesis using assms(2) by (simp add: launch_def enter_loop_def on_failure_def)
qed

lemma task_step_lacks_destination:
  assumes "lacks_destination (t_op tk)" and "0 \<le> retryAttempts opts"
    and "(\<exists>ms. t_wait tk = Timer ms \<and> t_lastError tk = destination_required (t_op tk))
         \<or> t_wait tk = Rejecting (destination_required (t_op tk))"
  shows "(\<exists>t1 w1. task_step pf opts tk w = (Waits t1, w1)
            \<and> (\<exists>ms. t_wait t1 = Timer ms) \<and> t_lastError t1 = destination_required (t_op tk))
       \<or> (\<exists>w1. task_step pf opts tk w = (Throws (destination_required (t_op tk)), w1))"
proof -
  have "no_destination (t_op tk)"
    using assms(1) by (simp add: lacks_destination_def no_destination_def)
  then have c: "attempt_calls (t_op tk) = Inl (destination_required (t_op tk))"
    by (simp add: attempt_calls_Inl)
  from assms(3) show ?thesis
  proof
    assume "\<exists>ms. t_wait tk = Timer ms \<and> t_lastError tk = destination_required (t_op tk)"
    then obtain ms where tm: "t_wait tk = Timer ms"
      and le: "t_lastError tk = destination_required (t_op tk)" by blast
    show ?thesis
    proof (cases "of_nat (t_attempt tk + 1) \<le> retryAttempts opts")
      case False
      with tm le show ?thesis
        by (simp add: task_step_def enter_loop_def settle_or_wait_def)
    next
      case True
      show ?thesis
      proof (cases "of_nat (t_attempt tk + 1) < retryAttempts opts")
        case lt: True
        with True tm c show ?thesis
          by (simp add: task_step_def enter_loop_def on_failure_def settle_or_wait_def)
      next
        case ge: False
        with True tm c show ?thesis
          by (simp add: task_step_def enter_loop_def on_failure_def settle_or_wait_def)
      qed
    qed
  next
    assume "t_wait tk = Rejecting (destination_required (t_op tk))"
    then show ?thesis by (simp add: task_step_def)
  qed
qed

lemma destination_ok_start_queued:
  assumes "lacks_destination op" and "0 \<le> retryAttempts opts"
  shows "destination_ok op st \<Longrightarrow> destination_ok op (start_queued limit opts st)"
  using launch_lacks_destination[OF assms]
  by (auto simp: destination_ok_def start_queued_def)

lemma destination_ok_resume:
  assumes "lacks_destination op" and "0 \<le> retryAttempts opts"
    and "i < length (active st)" and "destination_ok op st"
  shows "destination_ok op (resume_task pf opts limit i st)"
proof -
  let ?t = "active st ! i"
  have tin: "?t \<in> set (active st)" using assms(3) by simp
  have pre: "t_op ?t = op \<Longrightarrow>
      (\<exists>ms. t_wait ?t = Timer ms \<and> t_lastError ?t = destination_required (t_op ?t))
      \<or> t_wait ?t = Rejecting (destination_required (t_op ?t))"
    using assms(4) tin by (auto simp: destination_ok_def)
  note step = task_step_lacks_destination[of ?t opts pf "world st"]
  note sub = set_remove_nth_subset[of i "active st"]
  show ?thesis
  proof (cases rule: resume_task_cases[where pf = pf and st = st and i = i and opts = opts and limit = limit])
    case (waits t1 w1)
    have op1: "t_op t1 = t_op ?t" using task_step_Waits[OF waits(1)] by simp
    have e: "t_op ?t = op \<Longrightarrow>
        (\<exists>ms. t_wait t1 = Timer ms) \<and> t_lastError t1 = destination_required op"
      using step pre assms(1,2) waits(1) by auto
    have "set ((active st)[i := t1]) \<subseteq> insert t1 (set (active st))"
      by (rule set_update_subset_insert)
    then show ?thesis unfolding waits(2) using assms(4) e op1
      by (auto simp: destination_ok_def)
  next
    case (returned v w1)
    have ne: "t_op ?t \<noteq> op"
      using step pre assms(1,2) returned(1) by auto
    show ?thesis unfolding returned(2)
      by (rule destination_ok_start_queued[OF assms(1,2)])
         (use assms(4) sub ne in \<open>auto simp: destination_ok_def\<close>)
  next
    case (thrown e w1)
    have e: "t_op ?t = op \<Longrightarrow> e = destination_required op"
      using step pre assms(1,2) thrown(1) by auto
    show ?thesis unfolding thrown(2)
      by (rule destination_ok_start_queued[OF assms(1,2)])
         (use assms(4) sub e in \<open>auto simp: destination_ok_def\<close>)
  qed
qed

lemma destination_ok_submit:
  assumes "lacks_destination op" and "0 \<le> retryAttempts opts"
  shows "destination_ok op st \<Longrightarrow> destination_ok op (submit limit opts grp st)"
  unfolding submit_def
  by (rule destination_ok_start_queued[OF assms]) (simp add: destination_ok_def)

lemma destination_ok_run:
  assumes "lacks_destination op" and "0 \<le> retryAttempts opts"
  shows "destination_ok op (snd (coordinate pf opts limit sched ops w))"
  unfolding coordinate_def
proof (rule run_groups_invariant[where P = "destination_ok op"])
  show "destination_ok op (idle w)" by (simp add: destination_ok_def idle_def)
  show "\<not> (rejected (idle w) \<and> stopOnError opts)" by (simp add: idle_def)
qed (simp_all add: destination_ok_resume[OF assms] destination_ok_submit[OF assms])

lemma parse_op_json: "parse_FileOperation (JObj (op_json op)) = Some op"
proof -
  have t: "z_type (Some (JStr (type_name (type op)))) = Some (type op)"
    by (cases "type op") (simp_all add: z_type_def type_name_def)
  have e: "z_encoding (Some (JStr (encoding_name (encoding op)))) = Some (encoding op)"
    by (cases "encoding op") (simp_all add: z_encoding_def encoding_name_def)
  show ?thesis
    using t e
    by (cases "content op"; cases "destination op")
       (simp_all add: parse_FileOperation_def op_json_def obj_get_def z_string_def
         z_string_optional_def)
qed

text \<open>
  Claim C6. Let \<open>op\<close> be a \<^verbatim>\<open>copy\<close> or \<^verbatim>\<open>move\<close> with no destination. The parser accepts it
  as it is. Whatever \<open>retryAttempts \<ge> 0\<close> is and whatever the file system does, the
  executor throws \<^verbatim>\<open>Destination required for copy\<close> (or \<^verbatim>\<open>move\<close>); in a batch, under every
  schedule, every outcome recorded for \<open>op\<close> is that failure, and when the batch runs to
  its end (\<open>stopOnError\<close> false) the failure record with that message is in \<open>errors\<close>.
\<close>

theorem destination_is_required:
  assumes "type op = Copy \<or> type op = Move" and "destination op = None"
    and "0 \<le> retryAttempts opts"
  shows "parse_FileOperation (JObj (op_json op)) = Some op
    \<and> fst (executeFileOperation pf op opts w)
        = Inl (Error (''Destination required for '' @ type_name (type op)))
    \<and> (\<forall>out. (op, out) \<in> set (settled (snd (coordinate pf opts limit sched ops w))) \<longrightarrow>
          out = Inl (Error (''Destination required for '' @ type_name (type op))))
    \<and> (op \<in> set ops \<and> \<not> stopOnError opts \<and> 0 < limit \<longrightarrow>
          JObj [(''operation'', JObj (op_json op)),
                (''error'', JStr (''Destination required for '' @ type_name (type op))),
                (''status'', JStr ''failed'')]
            \<in> set (errors (summary_of ops (snd (coordinate pf opts limit sched ops w)))))"
proof (intro conjI impI)
  let ?st = "snd (coordinate pf opts limit sched ops w)"
  have l: "lacks_destination op" using assms(1,2) by (simp add: lacks_destination_def)
  show "parse_FileOperation (JObj (op_json op)) = Some op" by (rule parse_op_json)
  show "fst (executeFileOperation pf op opts w)
        = Inl (Error (''Destination required for '' @ type_name (type op)))"
    using exec_loop_lacks_destination[OF l assms(3), of 0 Null pf w]
    by (simp add: executeFileOperation_def destination_required_def)
  have ok: "destination_ok op ?st" using l assms(3) by (rule destination_ok_run)
  then show all: "\<forall>out. (op, out) \<in> set (settled ?st) \<longrightarrow>
          out = Inl (Error (''Destination required for '' @ type_name (type op)))"
    by (simp add: destination_ok_def destination_required_def)
  assume h: "op \<in> set ops \<and> \<not> stopOnError opts \<and> 0 < limit"
  then have "mset (map fst (settled ?st)) = mset ops"
    using all_settled_mset[of opts limit pf sched ops w] by blast
  then have "set (map fst (settled ?st)) = set ops" by (metis set_mset_mset)
  with h obtain out where "(op, out) \<in> set (settled ?st)" by force
  with all have "(op, Inl (Error (''Destination required for '' @ type_name (type op))))
      \<in> set (settled ?st)" by blast
  then have "failure_record op (Error (''Destination required for '' @ type_name (type op)))
      \<in> set (failure_records (settled ?st))" by (rule failure_records_mem)
  moreover have "records_ok ?st" by (rule records_ok_run)
  ultimately show "JObj [(''operation'', JObj (op_json op)),
                (''error'', JStr (''Destination required for '' @ type_name (type op))),
                (''status'', JStr ''failed'')]
            \<in> set (errors (summary_of ops ?st))"
    by (simp add: summary_of_def records_ok_def failure_record_def error_message_def)
qed

theorem destination_is_required_witness:
  "(type op_copy_nodest = Copy \<or> type op_copy_nodest = Move) \<and> destination op_copy_nodest = None
   \<and> 0 \<le> retryAttempts (default_options\<lparr>retryAttempts := 3\<rparr>)
   \<and> op_copy_nodest \<in> set [op_create_a, op_copy_nodest]
   \<and> \<not> stopOnError (default_options\<lparr>retryAttempts := 3\<rparr>) \<and> (0::nat) < 10
   \<and> fst (executeFileOperation toy op_copy_nodest (default_options\<lparr>retryAttempts := 3\<rparr>) toy_start)
       = Inl (Error ''Destination required for copy'')
   \<and> JObj [(''operation'', JObj (op_json op_copy_nodest)),
            (''error'', JStr ''Destination required for copy''), (''status'', JStr ''failed'')]
       \<in> set (errors (summary_of [op_create_a, op_copy_nodest]
            (snd (coordinate toy (default_options\<lparr>retryAttempts := 3\<rparr>) 10 [Advance 1, Advance 0]
                   [op_create_a, op_copy_nodest] toy_start))))"
proof -
  let ?opts = "default_options\<lparr>retryAttempts := 3\<rparr>"
  have a: "type op_copy_nodest = Copy \<or> type op_copy_nodest = Move"
    by (simp add: op_copy_nodest_def)
  have b: "destination op_copy_nodest = None" by (simp add: op_copy_nodest_def)
  have c: "0 \<le> retryAttempts ?opts" by (simp add: default_options_def)
  have d: "op_copy_nodest \<in> set [op_create_a, op_copy_nodest]
      \<and> \<not> stopOnError ?opts \<and> (0::nat) < 10"
    by (simp add: default_options_def)
  have n: "''Destination required for '' @ type_name (type op_copy_nodest)
      = ''Destination required for copy''"
    by (simp add: op_copy_nodest_def type_name_def)
  from destination_is_required[OF a b c, of toy toy_start 10 "[Advance 1, Advance 0]"
      "[op_create_a, op_copy_nodest]"] d
  show ?thesis using a b c unfolding n by blast
qed


end
